theory Spec2Isabelle
  imports Main "HOL-Library.Char_ord" "HOL-Library.List_Lexorder" "HOL-Library.AList"
begin

section \<open>Text and bytes\<close>

text \<open>
  The utility module \<^verbatim>\<open>hggit/util.py\<close> is Python 3 code. A text string
  (\<^verbatim>\<open>str\<close>) is a sequence of code points, modelled as a list of natural numbers;
  a byte string (\<^verbatim>\<open>bytes\<close>) is a list of 8-bit characters. \<open>uni\<close> writes a text
  literal.
\<close>

type_synonym unicode = "nat list"

definition ord :: "char \<Rightarrow> nat" where
  "ord c = of_char c"

definition uni :: "string \<Rightarrow> unicode" where
  "uni s = map ord s"

definition startswith :: "'a list \<Rightarrow> 'a list \<Rightarrow> bool" where
  "startswith s p = (take (length p) s = p)"

definition endswith :: "'a list \<Rightarrow> 'a list \<Rightarrow> bool" where
  "endswith s p = (length p \<le> length s \<and> drop (length s - length p) s = p)"

subsection \<open>UTF-8\<close>

definition byte :: "char \<Rightarrow> nat" where
  "byte c = of_char c"

definition cont :: "char \<Rightarrow> bool" where
  "cont c = (128 \<le> byte c \<and> byte c \<le> 191)"

text \<open>
  The second byte of a sequence that starts with \<open>c\<close>: a continuation byte that
  rules out the over-long forms, the surrogates and everything above U+10FFFF.
\<close>

definition second_ok :: "char \<Rightarrow> char \<Rightarrow> bool" where
  "second_ok c c1 =
     (cont c1
      \<and> (byte c = 224 \<longrightarrow> 160 \<le> byte c1)
      \<and> (byte c = 237 \<longrightarrow> byte c1 < 160)
      \<and> (byte c = 240 \<longrightarrow> 144 \<le> byte c1)
      \<and> (byte c = 244 \<longrightarrow> byte c1 < 144))"

definition surrogate :: "nat \<Rightarrow> bool" where
  "surrogate cp = (55296 \<le> cp \<and> cp \<le> 57343)"

text \<open>
  The bytes of one code point (\<open>cp div 64\<close> is the shift by six bits). A surrogate
  has no encoding; a number from \<open>0x110000\<close> on is not a code point.
\<close>

definition encode_cp :: "nat \<Rightarrow> string option" where
  "encode_cp cp =
     (if cp < 128 then Some [char_of cp]
      else if cp < 2048 then Some [char_of (192 + cp div 64), char_of (128 + cp mod 64)]
      else if cp < 65536 then
        (if surrogate cp then None
         else Some [char_of (224 + cp div 64 div 64), char_of (128 + cp div 64 mod 64),
                    char_of (128 + cp mod 64)])
      else if cp < 1114112 then
        Some [char_of (240 + cp div 64 div 64 div 64), char_of (128 + cp div 64 div 64 mod 64),
              char_of (128 + cp div 64 mod 64), char_of (128 + cp mod 64)]
      else None)"

section \<open>Python values\<close>

text \<open>
  A value is a tree: text, byte strings, integers, booleans, \<^verbatim>\<open>None\<close>, tuples, lists
  and dictionaries (floating point numbers are left out). A dictionary is the list
  of its items in insertion order; keys are compared structurally, which agrees
  with Python on text, bytes, \<^verbatim>\<open>None\<close>, integers among themselves and tuples of
  these (the equality \<^verbatim>\<open>True == 1\<close> across \<^verbatim>\<open>bool\<close> and \<^verbatim>\<open>int\<close> is not modelled).
\<close>

datatype pyval =
    VStr unicode
  | VBytes string
  | VInt int
  | VBool bool
  | VNone
  | VTuple "pyval list"
  | VList "pyval list"
  | VDict "(pyval \<times> pyval) list"

datatype pytype = TStr | TBytes | TInt | TBool | TNoneType | TTuple | TList | TDict

text \<open>
  Exceptions are values. \<open>KeyNotInDict a\<close> is
  \<^verbatim>\<open>Exception('%s is not in the dict' % key)\<close> with \<open>a\<close> the object the format
  directive prints; \<open>Abort fmt a\<close> is Mercurial's \<^verbatim>\<open>error.Abort(_(fmt) % (a,))\<close>.
\<close>

datatype error =
    TypeError
  | ValueError
  | KeyError
  | UnicodeEncodeError
  | UnicodeDecodeError
  | KeyNotInDict pyval
  | Abort string unicode

text \<open>\<^verbatim>\<open>s.encode('utf-8')\<close> and the strict \<^verbatim>\<open>b.decode('utf-8')\<close>.\<close>

fun encode_utf8 :: "unicode \<Rightarrow> error + string" where
  "encode_utf8 [] = Inr []"
| "encode_utf8 (cp # cps) =
     (case encode_cp cp of
        None \<Rightarrow> Inl UnicodeEncodeError
      | Some bs \<Rightarrow> (case encode_utf8 cps of Inl e \<Rightarrow> Inl e | Inr r \<Rightarrow> Inr (bs @ r)))"

definition emit :: "nat \<Rightarrow> error + unicode \<Rightarrow> error + unicode" where
  "emit cp r = (case r of Inl e \<Rightarrow> Inl e | Inr cps \<Rightarrow> Inr (cp # cps))"

fun decode_utf8 :: "string \<Rightarrow> error + unicode" where
  "decode_utf8 [] = Inr []"
| "decode_utf8 (c # cs) =
     (let b = byte c in
      if b < 128 then emit b (decode_utf8 cs)
      else if 194 \<le> b \<and> b \<le> 223 then
        (case cs of
           c1 # r \<Rightarrow>
             if cont c1 then emit ((b - 192) * 64 + (byte c1 - 128)) (decode_utf8 r)
             else Inl UnicodeDecodeError
         | _ \<Rightarrow> Inl UnicodeDecodeError)
      else if 224 \<le> b \<and> b \<le> 239 then
        (case cs of
           c1 # c2 # r \<Rightarrow>
             if second_ok c c1 \<and> cont c2
             then emit (((b - 224) * 64 + (byte c1 - 128)) * 64 + (byte c2 - 128)) (decode_utf8 r)
             else Inl UnicodeDecodeError
         | _ \<Rightarrow> Inl UnicodeDecodeError)
      else if 240 \<le> b \<and> b \<le> 244 then
        (case cs of
           c1 # c2 # c3 # r \<Rightarrow>
             if second_ok c c1 \<and> cont c2 \<and> cont c3
             then emit ((((b - 240) * 64 + (byte c1 - 128)) * 64 + (byte c2 - 128)) * 64
                        + (byte c3 - 128)) (decode_utf8 r)
             else Inl UnicodeDecodeError
         | _ \<Rightarrow> Inl UnicodeDecodeError)
      else Inl UnicodeDecodeError)"

fun type_of :: "pyval \<Rightarrow> pytype" where
  "type_of (VStr _) = TStr"
| "type_of (VBytes _) = TBytes"
| "type_of (VInt _) = TInt"
| "type_of (VBool _) = TBool"
| "type_of VNone = TNoneType"
| "type_of (VTuple _) = TTuple"
| "type_of (VList _) = TList"
| "type_of (VDict _) = TDict"

text \<open>\<^verbatim>\<open>isinstance\<close>: \<^verbatim>\<open>bool\<close> is a subclass of \<^verbatim>\<open>int\<close>.\<close>

definition isinstance :: "pyval \<Rightarrow> pytype \<Rightarrow> bool" where
  "isinstance v t = (type_of v = t \<or> (type_of v = TBool \<and> t = TInt))"

fun hashable :: "pyval \<Rightarrow> bool" where
  "hashable (VTuple xs) = list_all hashable xs"
| "hashable (VList _) = False"
| "hashable (VDict _) = False"
| "hashable _ = True"


text \<open>Running one fallible step after another: the first exception ends the run.\<close>

definition and_then :: "'e + 'a \<Rightarrow> ('a \<Rightarrow> 'e + 'b) \<Rightarrow> 'e + 'b" where
  "and_then r f = (case r of Inl e \<Rightarrow> Inl e | Inr v \<Rightarrow> f v)"

subsection \<open>\<^verbatim>\<open>str(v)\<close>\<close>

text \<open>
  \<^verbatim>\<open>str\<close> of a text string is the string; of any other object it is its \<^verbatim>\<open>repr\<close>.
  The \<^verbatim>\<open>repr\<close> of text and of byte strings (the choice of quotes, the escapes) is the
  parameter \<open>R\<close>; everything else is spelled out.
\<close>

definition digit_char :: "nat \<Rightarrow> char" where
  "digit_char n = ''0123456789'' ! n"

fun digits :: "nat \<Rightarrow> string" where
  "digits n = (if n < 10 then [digit_char n] else digits (n div 10) @ [digit_char (n mod 10)])"

definition str_int :: "int \<Rightarrow> unicode" where
  "str_int i = uni (if i < 0 then CHR ''-'' # digits (nat (- i)) else digits (nat i))"

fun join_str :: "'a list \<Rightarrow> 'a list list \<Rightarrow> 'a list" where
  "join_str sep [] = []"
| "join_str sep [x] = x"
| "join_str sep (x # y # ys) = x @ sep @ join_str sep (y # ys)"

fun py_repr :: "(pyval \<Rightarrow> unicode) \<Rightarrow> pyval \<Rightarrow> unicode" where
  "py_repr R (VStr s) = R (VStr s)"
| "py_repr R (VBytes b) = R (VBytes b)"
| "py_repr R (VInt i) = str_int i"
| "py_repr R (VBool b) = (if b then uni ''True'' else uni ''False'')"
| "py_repr R VNone = uni ''None''"
| "py_repr R (VTuple xs) =
     (if length xs = 1 then uni ''('' @ join_str (uni '', '') (map (py_repr R) xs) @ uni '',)''
      else uni ''('' @ join_str (uni '', '') (map (py_repr R) xs) @ uni '')'')"
| "py_repr R (VList xs) = uni ''['' @ join_str (uni '', '') (map (py_repr R) xs) @ uni '']''"
| "py_repr R (VDict kvs) =
     uni ''{''
     @ join_str (uni '', '') (map (\<lambda>(k, v). py_repr R k @ uni '': '' @ py_repr R v) kvs)
     @ uni ''}''"

definition py_str :: "(pyval \<Rightarrow> unicode) \<Rightarrow> pyval \<Rightarrow> unicode" where
  "py_str R v = (case v of VStr s \<Rightarrow> s | _ \<Rightarrow> py_repr R v)"

section \<open>The data-lookup helper\<close>





section \<open>The scalar wrappers and the path join\<close>

definition to_bytes :: "(pyval \<Rightarrow> unicode) \<Rightarrow> pyval \<Rightarrow> error + pyval" where
  "to_bytes R v =
     (if type_of v \<noteq> TBytes
      then and_then (encode_utf8 (py_str R v)) (\<lambda>b. Inr (VBytes b))
      else Inr v)"

definition to_str :: "pyval \<Rightarrow> error + pyval" where
  "to_str v =
     (case v of
        VBytes b \<Rightarrow> and_then (decode_utf8 b) (\<lambda>s. Inr (VStr s))
      | _ \<Rightarrow> Inr v)"

text \<open>
  \<^verbatim>\<open>path_join(a, *p)\<close>: the loop fills \<^verbatim>\<open>p2\<close>, then \<^verbatim>\<open>a\<close> is coerced and the join
  primitive called. \<^verbatim>\<open>os.path.join_orig\<close> is installed elsewhere in the extension;
  it is the parameter \<open>join_orig\<close>.
\<close>

definition path_join ::
  "(pyval \<Rightarrow> unicode) \<Rightarrow> (pyval \<Rightarrow> pyval list \<Rightarrow> 'r) \<Rightarrow> pyval \<Rightarrow> pyval list \<Rightarrow> error + 'r" where
  "path_join R join_orig a p =
     and_then
       (foldl (\<lambda>acc x. and_then acc (\<lambda>p2. and_then (to_bytes R x) (\<lambda>y. Inr (p2 @ [y]))))
          (Inr []) p)
       (\<lambda>p2. and_then (to_bytes R a) (\<lambda>a'. Inr (join_orig a' p2)))"

section \<open>The encoding normalizer\<close>

text \<open>
  \<^verbatim>\<open>to(data, 'utf-8')\<close>: \<^verbatim>\<open>bytes(text, 'utf-8')\<close> encodes, \<^verbatim>\<open>str(bytes, 'utf-8')\<close>
  decodes, and every other pairing of a constructor with an object is a
  \<^verbatim>\<open>TypeError\<close>.
\<close>

fun construct :: "pytype \<Rightarrow> pyval \<Rightarrow> error + pyval" where
  "construct TBytes (VStr s) = and_then (encode_utf8 s) (\<lambda>b. Inr (VBytes b))"
| "construct TStr (VBytes b) = and_then (decode_utf8 b) (\<lambda>s. Inr (VStr s))"
| "construct _ _ = Inl TypeError"

text \<open>Forcing a \<^verbatim>\<open>map\<close> object: the first exception ends it.\<close>

fun sequence_sum :: "('e + 'a) list \<Rightarrow> 'e + 'a list" where
  "sequence_sum [] = Inr []"
| "sequence_sum (x # xs) =
     (case x of
        Inl e \<Rightarrow> Inl e
      | Inr v \<Rightarrow> (case sequence_sum xs of Inl e \<Rightarrow> Inl e | Inr vs \<Rightarrow> Inr (v # vs)))"

text \<open>
  \<^verbatim>\<open>dict(pairs)\<close>: the pairs are stored from left to right; a key that is already
  there keeps its place and takes the new value.
\<close>

definition py_dict :: "(pyval \<times> pyval) list \<Rightarrow> error + pyval" where
  "py_dict pairs =
     (if list_all (\<lambda>(k, v). hashable k) pairs
      then Inr (VDict (foldl (\<lambda>d (k, v). AList.update k v d) [] pairs))
      else Inl TypeError)"

text \<open>
  \<^verbatim>\<open>convert(data, frm=str, to=bytes)\<close>. The recursive calls are
  \<^verbatim>\<open>map(convert, ...)\<close>: they pass one argument, so below the top the kinds are
  the defaults \<^verbatim>\<open>str\<close> and \<^verbatim>\<open>bytes\<close>. An item of \<^verbatim>\<open>data.items()\<close> is a pair
  \<^verbatim>\<open>(k, v)\<close>, which the tuple branch turns into \<^verbatim>\<open>(convert(k), convert(v))\<close>.
\<close>

fun convert :: "pyval \<Rightarrow> pytype \<Rightarrow> pytype \<Rightarrow> error + pyval" where
  "convert data frm to =
     (if isinstance data frm then construct to data
      else case data of
        VDict items \<Rightarrow>
          (case sequence_sum
                  (map (\<lambda>(k, v).
                          case convert k TStr TBytes of
                            Inl e \<Rightarrow> Inl e
                          | Inr k' \<Rightarrow>
                              (case convert v TStr TBytes of
                                 Inl e \<Rightarrow> Inl e
                               | Inr v' \<Rightarrow> Inr (k', v')))
                     items) of
             Inl e \<Rightarrow> Inl e
           | Inr pairs \<Rightarrow> py_dict pairs)
      | VTuple xs \<Rightarrow>
          (case sequence_sum (map (\<lambda>x. convert x TStr TBytes) xs) of
             Inl e \<Rightarrow> Inl e
           | Inr ys \<Rightarrow> Inr (VTuple ys))
      | VList xs \<Rightarrow>
          (case sequence_sum (map (\<lambda>x. convert x TStr TBytes) xs) of
             Inl e \<Rightarrow> Inl e
           | Inr ys \<Rightarrow> Inr (VList ys))
      | _ \<Rightarrow> Inr data)"

declare convert.simps [simp del]

subsection \<open>What a normalization may and may not change\<close>







section \<open>The SSH argument-injection guard\<close>

subsection \<open>\<^verbatim>\<open>urllib.parse.unquote\<close>\<close>

definition hexval :: "char \<Rightarrow> nat option" where
  "hexval c =
     (let b = byte c in
      if 48 \<le> b \<and> b \<le> 57 then Some (b - 48)
      else if 65 \<le> b \<and> b \<le> 70 then Some (b - 55)
      else if 97 \<le> b \<and> b \<le> 102 then Some (b - 87)
      else None)"

text \<open>
  \<^verbatim>\<open>unquote_to_bytes\<close>: the string is split at every \<^verbatim>\<open>%\<close>; a piece that starts
  with two hexadecimal digits gives the byte they name and the rest of the piece,
  any other piece keeps its \<^verbatim>\<open>%\<close>.
\<close>

fun unquote_to_bytes :: "string \<Rightarrow> string" where
  "unquote_to_bytes [] = []"
| "unquote_to_bytes (c # cs) =
     (if c = CHR ''%'' then
        (case cs of
           a # b # rest \<Rightarrow>
             (case (hexval a, hexval b) of
                (Some x, Some y) \<Rightarrow> char_of (16 * x + y) # unquote_to_bytes rest
              | _ \<Rightarrow> c # unquote_to_bytes cs)
         | _ \<Rightarrow> c # unquote_to_bytes cs)
      else c # unquote_to_bytes cs)"

text \<open>
  \<^verbatim>\<open>b.decode('utf-8', 'replace')\<close>: the strict decoder, except that every
  ill-formed piece (a byte that cannot start a sequence, or the longest prefix of a
  sequence that is cut short) becomes U+FFFD and decoding goes on after it.
\<close>

fun decode_replace :: "string \<Rightarrow> unicode" where
  "decode_replace [] = []"
| "decode_replace (c # cs) =
     (let b = byte c in
      if b < 128 then b # decode_replace cs
      else if b < 194 \<or> 244 < b then 65533 # decode_replace cs
      else
        (case cs of
           [] \<Rightarrow> [65533]
         | c1 # r1 \<Rightarrow>
             if \<not> second_ok c c1 then 65533 # decode_replace cs
             else if b < 224 then ((b - 192) * 64 + (byte c1 - 128)) # decode_replace r1
             else
               (case r1 of
                  [] \<Rightarrow> [65533]
                | c2 # r2 \<Rightarrow>
                    if \<not> cont c2 then 65533 # decode_replace r1
                    else if b < 240
                    then (((b - 224) * 64 + (byte c1 - 128)) * 64 + (byte c2 - 128))
                         # decode_replace r2
                    else
                      (case r2 of
                         [] \<Rightarrow> [65533]
                       | c3 # r3 \<Rightarrow>
                           if \<not> cont c3 then 65533 # decode_replace r2
                           else ((((b - 240) * 64 + (byte c1 - 128)) * 64 + (byte c2 - 128)) * 64
                                 + (byte c3 - 128)) # decode_replace r3))))"

text \<open>
  The pieces \<^verbatim>\<open>unquote\<close> joins: the characters outside ASCII are kept, every
  run of ASCII characters is unquoted to bytes and decoded.
\<close>

function unquote_parts :: "unicode \<Rightarrow> unicode" where
  "unquote_parts s =
     (if s = [] then []
      else
        let kept = takeWhile (\<lambda>cp. \<not> cp < 128) s;
            s1 = dropWhile (\<lambda>cp. \<not> cp < 128) s;
            run = takeWhile (\<lambda>cp. cp < 128) s1;
            s2 = dropWhile (\<lambda>cp. cp < 128) s1
        in kept @ decode_replace (unquote_to_bytes (map char_of run)) @ unquote_parts s2)"
  by pat_completeness auto
termination
proof (relation "measure length")
  show "wf (measure length)" by simp
next
  fix s :: unicode and kept s1 run s2
  assume s: "s \<noteq> []" and s1: "s1 = dropWhile (\<lambda>cp. \<not> cp < 128) s"
    and s2: "s2 = dropWhile (\<lambda>cp. cp < 128) s1"
  obtain c cs where c: "s = c # cs" using s by (cases s) auto
  have "length s2 < length s"
  proof (cases "c < 128")
    case True
    then have "s1 = s" by (simp add: s1 c)
    then have "s2 = dropWhile (\<lambda>cp. cp < 128) cs" using True by (simp add: s2 c)
    then show ?thesis using length_dropWhile_le [of "\<lambda>cp. cp < 128" cs]
      by (simp add: c less_Suc_eq_le)
  next
    case False
    then have "s1 = dropWhile (\<lambda>cp. \<not> cp < 128) cs" by (simp add: s1 c)
    then have "length s1 \<le> length cs" by (simp add: length_dropWhile_le)
    moreover have "length s2 \<le> length s1" by (simp add: s2 length_dropWhile_le)
    ultimately show ?thesis by (simp add: c)
  qed
  then show "(s2, s) \<in> measure length" by simp
qed

declare unquote_parts.simps [simp del]

definition unquote :: "unicode \<Rightarrow> unicode" where
  "unquote s = (if ord CHR ''%'' \<notin> set s then s else unquote_parts s)"

subsection \<open>\<^verbatim>\<open>checksafessh\<close>\<close>

definition checksafessh :: "unicode \<Rightarrow> error + unit" where
  "checksafessh host0 =
     (let host = unquote host0 in
      if startswith host (uni ''-'')
      then Inl (Abort ''potentially unsafe hostname: %r'' host)
      else Inr ())"

section \<open>The two flat key-value formats\<close>







text \<open>
  \<^verbatim>\<open>serialize_hgsub\<close> joins one line \<^verbatim>\<open>'%s = %s\n' % (n, v)\<close> for every item, in
  the order of the dictionary (\<^verbatim>\<open>iteritems\<close>).
\<close>

definition hgsub_lines :: "(unicode \<times> unicode) list \<Rightarrow> unicode list" where
  "hgsub_lines data = map (\<lambda>(n, v). n @ uni '' = '' @ v @ [10]) data"

definition serialize_hgsub :: "(unicode \<times> unicode) list \<Rightarrow> unicode" where
  "serialize_hgsub data = concat (hgsub_lines data)"



text \<open>
  \<^verbatim>\<open>serialize_hgsubstate\<close> joins one line \<^verbatim>\<open>'%s %s\n' % (data[n], n)\<close> for every
  \<open>n\<close> of \<^verbatim>\<open>sorted(data)\<close>; a failing \<^verbatim>\<open>data[n]\<close> would be a \<^verbatim>\<open>KeyError\<close>.
\<close>

definition hgsubstate_lines :: "(unicode \<times> unicode) list \<Rightarrow> error + unicode list" where
  "hgsubstate_lines data =
     sequence_sum
       (map (\<lambda>n. case map_of data n of
                    None \<Rightarrow> Inl KeyError
                  | Some v \<Rightarrow> Inr (v @ uni '' '' @ n @ [10]))
          (sort (map fst data)))"

definition serialize_hgsubstate :: "(unicode \<times> unicode) list \<Rightarrow> error + unicode" where
  "serialize_hgsubstate data = and_then (hgsubstate_lines data) (\<lambda>lines. Inr (concat lines))"




section \<open>The endpoint classifier\<close>

subsection \<open>Regular expressions as \<^verbatim>\<open>re.match\<close> runs them\<close>

text \<open>
  \<^verbatim>\<open>isgitsshuri\<close> uses two patterns. They are embedded as terms of a datatype holding
  the constructs they are written with, and matched by a backtracking matcher that
  returns every way to match in the order \<^verbatim>\<open>re\<close> tries them, so that the head of the list
  is the match \<^verbatim>\<open>re.match\<close> returns and an empty list is its \<^verbatim>\<open>None\<close>.

  The classes \<^verbatim>\<open>\w\<close> and \<^verbatim>\<open>\d\<close> of a \<^verbatim>\<open>str\<close> pattern follow the Unicode character database
  outside ASCII (\<^verbatim>\<open>str.isalnum\<close> and the decimal digits); the two tables are a parameter.
\<close>

record ucd =
  uc_alnum :: "nat \<Rightarrow> bool"
  uc_decimal :: "nat \<Rightarrow> bool"

datatype item = Lit nat | Between nat nat | Word | Digit

fun item_mem :: "ucd \<Rightarrow> item \<Rightarrow> nat \<Rightarrow> bool" where
  "item_mem db (Lit d) c = (c = d)"
| "item_mem db (Between lo hi) c = (lo \<le> c \<and> c \<le> hi)"
| "item_mem db Word c =
     (if c < 128
      then (48 \<le> c \<and> c \<le> 57) \<or> (65 \<le> c \<and> c \<le> 90) \<or> (97 \<le> c \<and> c \<le> 122) \<or> c = 95
      else uc_alnum db c)"
| "item_mem db Digit c = (if c < 128 then 48 \<le> c \<and> c \<le> 57 else uc_decimal db c)"

text \<open>
  \<open>Any\<close> is \<^verbatim>\<open>.\<close> (any character but a newline), \<open>Set\<close> a bracketed class, \<open>Rep m n r\<close> the
  greedy \<^verbatim>\<open>r{m,n}\<close> (no upper bound when \<open>n\<close> is \<open>None\<close>), \<open>Grp i r\<close> the capturing group
  number \<open>i\<close>, \<open>Ahead\<close> and \<open>NotAhead\<close> are \<^verbatim>\<open>(?=r)\<close> and \<^verbatim>\<open>(?!r)\<close>, \<open>NotBehind d\<close> is
  \<^verbatim>\<open>(?<!d)\<close> for one character, \<open>Bol\<close> and \<open>Eol\<close> are \<^verbatim>\<open>^\<close> and \<^verbatim>\<open>$\<close> without the
  multi-line flag.
\<close>

datatype regex =
    Empty
  | Any
  | Chr nat
  | Set "item list"
  | Cat regex regex
  | Rep nat "nat option" regex
  | Grp nat regex
  | Ahead regex
  | NotAhead regex
  | NotBehind nat
  | Bol
  | Eol

text \<open>
  A state of the matcher: the characters consumed, latest first, the characters left, and
  the groups captured, latest first.
\<close>

type_synonym mstate = "unicode \<times> unicode \<times> (nat \<times> unicode) list"

definition remaining :: "mstate \<Rightarrow> nat" where
  "remaining st = length (fst (snd st))"

fun weight :: "regex \<Rightarrow> nat" where
  "weight (Cat r1 r2) = Suc (weight r1 + weight r2)"
| "weight (Rep m n r) = Suc (weight r)"
| "weight (Grp i r) = Suc (weight r)"
| "weight (Ahead r) = Suc (weight r)"
| "weight (NotAhead r) = Suc (weight r)"
| "weight _ = 0"

definition step :: "(nat \<Rightarrow> bool) \<Rightarrow> mstate \<Rightarrow> mstate list" where
  "step P st =
     (case st of (b, a, g) \<Rightarrow>
        (case a of [] \<Rightarrow> [] | c # a' \<Rightarrow> if P c then [(c # b, a', g)] else []))"

text \<open>
  A greedy loop first tries one more round of its body, in each of the ways the body
  matches, and gives up the round last; a round that consumes nothing is not repeated. A
  lookahead keeps the groups of the first way its body matches, and consumes nothing.
\<close>

function matches :: "ucd \<Rightarrow> regex \<Rightarrow> mstate \<Rightarrow> mstate list" where
  "matches db Empty st = [st]"
| "matches db Any st = step (\<lambda>c. c \<noteq> 10) st"
| "matches db (Chr d) st = step (\<lambda>c. c = d) st"
| "matches db (Set items) st = step (\<lambda>c. list_ex (\<lambda>i. item_mem db i c) items) st"
| "matches db (Cat r1 r2) st = concat (map (matches db r2) (matches db r1 st))"
| "matches db (Rep m n r) st =
     (if n = Some 0 then []
      else concat (map (\<lambda>st'. if remaining st' < remaining st
                               then matches db (Rep (m - 1) (map_option (\<lambda>k. k - 1) n) r) st'
                               else [])
                     (matches db r st)))
     @ (if m = 0 then [st] else [])"
| "matches db (Grp i r) st =
     map (\<lambda>(b', a', g'). (b', a', (i, rev (take (length b' - length (fst st)) b')) # g'))
       (matches db r st)"
| "matches db (Ahead r) st =
     (case matches db r st of [] \<Rightarrow> [] | (b', a', g') # _ \<Rightarrow> [(fst st, fst (snd st), g')])"
| "matches db (NotAhead r) st = (case matches db r st of [] \<Rightarrow> [st] | _ \<Rightarrow> [])"
| "matches db (NotBehind d) st =
     (case fst st of [] \<Rightarrow> [st] | c # _ \<Rightarrow> if c = d then [] else [st])"
| "matches db Bol st = (if fst st = [] then [st] else [])"
| "matches db Eol st = (if fst (snd st) = [] \<or> fst (snd st) = [10] then [st] else [])"
  by pat_completeness auto
termination
  by (relation "inv_image (less_than <*lex*> less_than) (\<lambda>(db, r, st). (weight r, remaining st))")
    auto

declare matches.simps [simp del]

fun seq :: "regex list \<Rightarrow> regex" where
  "seq [] = Empty"
| "seq [r] = r"
| "seq (r # rs) = Cat r (seq rs)"

definition Star :: "regex \<Rightarrow> regex" where "Star r = Rep 0 None r"
definition Plus :: "regex \<Rightarrow> regex" where "Plus r = Rep 1 None r"
definition Opt :: "regex \<Rightarrow> regex" where "Opt r = Rep 0 (Some 1) r"

text \<open>\<^verbatim>\<open>re.match(r, s)\<close>: the text matched and the groups, or \<open>None\<close>.\<close>

definition re_match :: "ucd \<Rightarrow> regex \<Rightarrow> unicode \<Rightarrow> (unicode \<times> (nat \<times> unicode) list) option" where
  "re_match db r s =
     (case matches db r ([], s, []) of
        [] \<Rightarrow> None
      | (b, a, g) # _ \<Rightarrow> Some (rev b, g))"

subsection \<open>\<^verbatim>\<open>isgitsshuri\<close>\<close>

text \<open>
  The pattern \<^verbatim>\<open>(?:.+@)*([\[]?[\w\d\.\:\-]+[\]]?):(.*)\<close> and the pattern
  \<^verbatim>\<open>(?=^.{4,253}$)(^((?!-)[a-zA-Z0-9-]{1,63}(?<!-)\.)+[a-zA-Z]{2,63}$)\<close>.
\<close>

definition git_re :: regex where
  "git_re =
     seq [Star (seq [Plus Any, Chr (ord CHR ''@'')]),
          Grp 1 (seq [Opt (Set [Lit (ord CHR ''['')]),
                      Plus (Set [Word, Digit, Lit (ord CHR ''.''), Lit (ord CHR '':''),
                                 Lit (ord CHR ''-'')]),
                      Opt (Set [Lit (ord CHR '']'')])]),
          Chr (ord CHR '':''),
          Grp 2 (Star Any)]"

definition fqdn_re :: regex where
  "fqdn_re =
     seq [Ahead (seq [Bol, Rep 4 (Some 253) Any, Eol]),
          Grp 1 (seq [Bol,
                      Plus (Grp 2 (seq [NotAhead (Chr (ord CHR ''-'')),
                                        Rep 1 (Some 63)
                                          (Set [Between (ord CHR ''a'') (ord CHR ''z''),
                                                Between (ord CHR ''A'') (ord CHR ''Z''),
                                                Between (ord CHR ''0'') (ord CHR ''9''),
                                                Lit (ord CHR ''-'')]),
                                        NotBehind (ord CHR ''-''),
                                        Chr (ord CHR ''.'')])),
                      Rep 2 (Some 63)
                        (Set [Between (ord CHR ''a'') (ord CHR ''z''),
                              Between (ord CHR ''A'') (ord CHR ''Z'')]),
                      Eol])]"

definition gitschemes :: "unicode list" where
  "gitschemes = [uni ''git'', uni ''git+ssh'', uni ''git+http'', uni ''git+https'']"

definition isgitsshuri :: "ucd \<Rightarrow> unicode \<Rightarrow> bool" where
  "isgitsshuri db uri =
     (if list_ex (\<lambda>scheme. startswith uri (scheme @ uni ''://'')) gitschemes then False
      else if startswith uri (uni ''http:'') \<or> startswith uri (uni ''https:'') then False
      else
        (case re_match db git_re uri of
           None \<Rightarrow> False
         | Some (whole, groups) \<Rightarrow>
             (case (map_of groups 1, map_of groups 2) of
                (Some giturl, Some repopath) \<Rightarrow>
                  if endswith repopath (uni ''.git'') then True
                  else if re_match db fqdn_re giturl \<noteq> None then True
                  else False
              | _ \<Rightarrow> False)))"

text \<open>Character tables with nothing outside ASCII, to run the classifier on ASCII addresses.\<close>

definition nodb :: ucd where
  "nodb = \<lparr>uc_alnum = (\<lambda>c. False), uc_decimal = (\<lambda>c. False)\<rparr>"

subsection \<open>The two patterns in words\<close>

text \<open>
  What the specification says of the patterns, without a matcher. Characters are code
  points: 10 is the newline, 45 \<^verbatim>\<open>-\<close>, 46 \<^verbatim>\<open>.\<close>, 58 \<^verbatim>\<open>:\<close>, 64 \<^verbatim>\<open>@\<close>, 91 \<^verbatim>\<open>[\<close>, 93 \<^verbatim>\<open>]\<close>.

  The prefixes that end the classification at once.
\<close>

definition scheme_prefixes :: "unicode list" where
  "scheme_prefixes =
     [uni ''git://'', uni ''git+ssh://'', uni ''git+http://'', uni ''git+https://'',
      uni ''http:'', uni ''https:'']"

text \<open>The first line of an address: \<^verbatim>\<open>.\<close> stops at a newline, and so does the match.\<close>

definition line_of :: "unicode \<Rightarrow> unicode" where
  "line_of s = takeWhile (\<lambda>c. c \<noteq> 10) s"

text \<open>A user prefix: nothing, or at least one character and then \<^verbatim>\<open>@\<close>.\<close>

definition user_prefix :: "unicode \<Rightarrow> bool" where
  "user_prefix pre = (pre = [] \<or> (2 \<le> length pre \<and> last pre = 64))"

text \<open>A character of a host: a word character, a digit, a dot, a colon or a hyphen.\<close>

definition host_items :: "item list" where
  "host_items = [Word, Digit, Lit 46, Lit 58, Lit 45]"

definition host_char :: "ucd \<Rightarrow> nat \<Rightarrow> bool" where
  "host_char db c = list_ex (\<lambda>i. item_mem db i c) host_items"

text \<open>
  A host token: one character of a host or more, with or without an opening bracket
  before them, with or without a closing bracket after them.
\<close>

definition host_token :: "ucd \<Rightarrow> unicode \<Rightarrow> bool" where
  "host_token db h =
     (\<exists>ob core cb. h = ob @ core @ cb \<and> (ob = [] \<or> ob = [91])
        \<and> core \<noteq> [] \<and> (\<forall>c \<in> set core. host_char db c) \<and> (cb = [] \<or> cb = [93]))"

text \<open>The same without the opening bracket.\<close>

definition host_body :: "ucd \<Rightarrow> unicode \<Rightarrow> bool" where
  "host_body db h =
     (\<exists>core cb. h = core @ cb \<and> core \<noteq> [] \<and> (\<forall>c \<in> set core. host_char db c) \<and> (cb = [] \<or> cb = [93]))"

text \<open>
  A way to read the first line as user prefix, host token, colon and path remainder; and
  the host token and path remainder of the match, which takes the longest user prefix
  and then the longest host token.
\<close>

definition git_split :: "ucd \<Rightarrow> unicode \<Rightarrow> unicode \<Rightarrow> unicode \<Rightarrow> unicode \<Rightarrow> bool" where
  "git_split db uri pre h path =
     (line_of uri = pre @ h @ 58 # path \<and> user_prefix pre \<and> host_token db h)"

definition git_groups :: "ucd \<Rightarrow> unicode \<Rightarrow> unicode \<Rightarrow> unicode \<Rightarrow> bool" where
  "git_groups db uri h path =
     (\<exists>pre. git_split db uri pre h path
        \<and> (\<forall>pre' h' path'. git_split db uri pre' h' path' \<longrightarrow>
              length pre' < length pre \<or> (length pre' = length pre \<and> length h' \<le> length h)))"

text \<open>
  A fully qualified domain name: 4 to 253 characters, made of one label or more, each
  followed by a dot, and a top-level label. A label is 1 to 63 ASCII letters, digits or
  hyphens, and neither starts nor ends with a hyphen; a top-level label is 2 to 63 ASCII
  letters.
\<close>

definition label_char :: "nat \<Rightarrow> bool" where
  "label_char c = (97 \<le> c \<and> c \<le> 122 \<or> 65 \<le> c \<and> c \<le> 90 \<or> 48 \<le> c \<and> c \<le> 57 \<or> c = 45)"

definition letter :: "nat \<Rightarrow> bool" where
  "letter c = (97 \<le> c \<and> c \<le> 122 \<or> 65 \<le> c \<and> c \<le> 90)"

definition label :: "unicode \<Rightarrow> bool" where
  "label l = (1 \<le> length l \<and> length l \<le> 63 \<and> (\<forall>c \<in> set l. label_char c)
                \<and> hd l \<noteq> 45 \<and> last l \<noteq> 45)"

definition tld :: "unicode \<Rightarrow> bool" where
  "tld t = (2 \<le> length t \<and> length t \<le> 63 \<and> (\<forall>c \<in> set t. letter c))"

definition dotted :: "unicode list \<Rightarrow> unicode \<Rightarrow> unicode" where
  "dotted ls t = concat (map (\<lambda>l. l @ [46]) ls) @ t"

definition is_fqdn :: "unicode \<Rightarrow> bool" where
  "is_fqdn h = (4 \<le> length h \<and> length h \<le> 253
                  \<and> (\<exists>ls t. ls \<noteq> [] \<and> (\<forall>l \<in> set ls. label l) \<and> tld t \<and> h = dotted ls t))"

text \<open>The same without the bound on the length, with \<open>m\<close> labels or more.\<close>

definition fq_rest :: "nat \<Rightarrow> unicode \<Rightarrow> bool" where
  "fq_rest m a = (\<exists>ls t. m \<le> length ls \<and> (\<forall>l \<in> set ls. label l) \<and> tld t \<and> a = dotted ls t)"

text \<open>The part of an address before its last colon.\<close>

definition before_final_colon :: "unicode \<Rightarrow> unicode" where
  "before_final_colon uri = rev (drop 1 (dropWhile (\<lambda>c. c \<noteq> 58) (rev uri)))"

subsection \<open>Positions in the address\<close>

text \<open>
  The matcher is followed through an address \<open>s\<close> by positions: \<open>at s g k\<close> is its state
  after \<open>k\<close> characters, with groups \<open>g\<close>.
\<close>

definition first :: "'a list \<Rightarrow> 'a option" where
  "first xs = (case xs of [] \<Rightarrow> None | x # _ \<Rightarrow> Some x)"

definition at :: "unicode \<Rightarrow> (nat \<times> unicode) list \<Rightarrow> nat \<Rightarrow> mstate" where
  "at s g k = (rev (take k s), drop k s, g)"

definition run :: "(nat \<Rightarrow> bool) \<Rightarrow> unicode \<Rightarrow> nat" where
  "run P a = length (takeWhile P a)"

definition lim :: "nat option \<Rightarrow> nat \<Rightarrow> nat" where
  "lim n x = (case n of None \<Rightarrow> x | Some k \<Rightarrow> min k x)"

definition line_end :: "unicode \<Rightarrow> nat \<Rightarrow> nat" where
  "line_end s k = k + run (\<lambda>c. c \<noteq> 10) (drop k s)"

text \<open>
  The places a user prefix can end, from \<open>k\<close> on and latest first: just after an \<^verbatim>\<open>@\<close>
  of the line that has a character before it.
\<close>

definition after_ats :: "unicode \<Rightarrow> nat \<Rightarrow> nat list" where
  "after_ats s k =
     map Suc (filter (\<lambda>j. j < length s \<and> s ! j = 64) (rev [Suc k ..< Suc (line_end s k)]))"

definition user_re :: regex where
  "user_re = Cat (Rep 1 None Any) (Chr 64)"

definition host_re :: regex where
  "host_re =
     Cat (Rep 0 (Some (Suc 0)) (Set [Lit 91]))
       (Cat (Rep (Suc 0) None (Set host_items)) (Rep 0 (Some (Suc 0)) (Set [Lit 93])))"

definition tail_re :: regex where
  "tail_re = Cat (Grp (Suc 0) host_re) (Cat (Chr 58) (Grp 2 (Rep 0 None Any)))"

text \<open>The places a host token that starts at \<open>p\<close> can end, in the order the matcher tries them.\<close>

definition ends :: "ucd \<Rightarrow> unicode \<Rightarrow> nat \<Rightarrow> nat list" where
  "ends db s q =
     (let e = q + run (host_char db) (drop q s)
      in (if q < e \<and> e < length s \<and> s ! e = 93 then [Suc e] else []) @ rev [Suc q ..< Suc e])"

definition hostends :: "ucd \<Rightarrow> unicode \<Rightarrow> nat \<Rightarrow> nat list" where
  "hostends db s p = (if p < length s \<and> s ! p = 91 then ends db s (Suc p) else ends db s p)"

definition tail_state :: "unicode \<Rightarrow> (nat \<times> unicode) list \<Rightarrow> nat \<Rightarrow> nat \<Rightarrow> mstate" where
  "tail_state s g p e =
     at s ((2, drop (Suc e) (take (line_end s (Suc e)) s)) # (Suc 0, drop p (take e s)) # g)
       (line_end s (Suc e))"

definition colon :: "unicode \<Rightarrow> nat \<Rightarrow> bool" where
  "colon s e = (e < length s \<and> s ! e = 58)"

definition host_end :: "ucd \<Rightarrow> unicode \<Rightarrow> nat \<Rightarrow> nat option" where
  "host_end db s p = find (colon s) (hostends db s p)"

definition prefix_end :: "ucd \<Rightarrow> unicode \<Rightarrow> nat option" where
  "prefix_end db s = find (\<lambda>p. host_end db s p \<noteq> None) (after_ats s 0 @ [0])"

definition split_at :: "ucd \<Rightarrow> unicode \<Rightarrow> nat \<Rightarrow> nat \<Rightarrow> bool" where
  "split_at db s p e = (p \<in> set (after_ats s 0 @ [0]) \<and> e \<in> set (hostends db s p) \<and> colon s e)"

text \<open>The parts of the domain-name pattern, and the places a label that starts at \<open>k\<close> can end.\<close>

definition lab_items :: "item list" where
  "lab_items = [Between 97 122, Between 65 90, Between 48 57, Lit 45]"

definition let_items :: "item list" where
  "let_items = [Between 97 122, Between 65 90]"

definition label_body :: regex where
  "label_body =
     Cat (NotAhead (Chr 45))
       (Cat (Rep (Suc 0) (Some 63) (Set lab_items)) (Cat (NotBehind 45) (Chr 46)))"

definition label_re :: regex where
  "label_re = Grp 2 label_body"

definition tld_re :: regex where
  "tld_re = Cat (Rep 2 (Some 63) (Set let_items)) Eol"

definition look_re :: regex where
  "look_re = Cat Bol (Cat (Rep 4 (Some 253) Any) Eol)"

definition label_ends :: "unicode \<Rightarrow> nat \<Rightarrow> nat list" where
  "label_ends s k =
     (if k < length s \<and> s ! k = 45 then []
      else map Suc (filter (\<lambda>j. s ! (j - 1) \<noteq> 45 \<and> j < length s \<and> s ! j = 46)
                      (rev [Suc k ..< Suc (k + lim (Some 63) (run label_char (drop k s)))])))"

section \<open>The UTF-8 codec round trip\<close>

lemma byte_char_of: "n < 256 \<Longrightarrow> byte (char_of n) = n"
  by (simp add: byte_def)

lemma div64_le: "a * 64 \<le> (n::nat) \<Longrightarrow> a \<le> n div 64"
  by (simp add: less_eq_div_iff_mult_less_eq)

lemma div64_less: "(n::nat) < a * 64 \<Longrightarrow> n div 64 < a"
  by (simp add: div_less_iff_less_mult)

lemma ge_div64: "a \<le> (n::nat) div 64 \<Longrightarrow> a * 64 \<le> n"
  by (simp add: less_eq_div_iff_mult_less_eq)

lemma split64: "(x::nat) = x div 64 * 64 + x mod 64"
  by simp

lemma tail_byte: "byte (char_of (128 + n mod 64)) = 128 + n mod 64"
proof -
  have "n mod 64 < (64::nat)" by simp
  then show ?thesis by (intro byte_char_of) linarith
qed

lemma tail_cont: "cont (char_of (128 + (n::nat) mod 64))"
proof -
  have "n mod 64 < (64::nat)" by simp
  then show ?thesis unfolding cont_def tail_byte by linarith
qed

lemma decode_encode_cp2:
  assumes "128 \<le> cp" "cp < 2048"
  shows "decode_utf8 (char_of (192 + cp div 64) # char_of (128 + cp mod 64) # rest)
         = emit cp (decode_utf8 rest)"
proof -
  have x: "2 \<le> cp div 64" "cp div 64 < 32"
    using assms by (auto intro: div64_le div64_less)
  then have l: "byte (char_of (192 + cp div 64)) = 192 + cp div 64"
    by (intro byte_char_of) linarith
  show ?thesis using x by (simp add: l tail_byte tail_cont Let_def)
qed

lemma decode_encode_cp3:
  assumes "2048 \<le> cp" "cp < 65536" "\<not> surrogate cp"
  shows "decode_utf8 (char_of (224 + cp div 64 div 64) # char_of (128 + cp div 64 mod 64)
                      # char_of (128 + cp mod 64) # rest)
         = emit cp (decode_utf8 rest)"
proof -
  define x where "x = cp div 64"
  have x: "32 \<le> x" "x < 1024"
    using assms unfolding x_def by (auto intro: div64_le div64_less)
  then have y: "x div 64 < 16" by (auto intro: div64_less)
  then have l: "byte (char_of (224 + x div 64)) = 224 + x div 64"
    by (intro byte_char_of) linarith
  have e0: "32 \<le> x mod 64" if "x div 64 = 0"
    using x that split64 [of x] by simp
  have ed: "x mod 64 < 32" if "x div 64 = 13"
  proof -
    have "x < 896" using that split64 [of x] mod_less_divisor [of 64 x] by linarith
    then have "cp < 57344" unfolding x_def using ge_div64 [of 896 cp] by linarith
    moreover have "832 \<le> x" using that split64 [of x] by linarith
    ultimately have "cp < 55296" using assms(3) by (simp add: surrogate_def)
    then have "x < 864" unfolding x_def by (auto intro: div64_less)
    then show ?thesis using that split64 [of x] by linarith
  qed
  have so: "second_ok (char_of (224 + x div 64)) (char_of (128 + x mod 64))"
    unfolding second_ok_def l tail_byte
  proof (intro conjI impI)
    show "cont (char_of (128 + x mod 64))" by (rule tail_cont)
  next
    assume "224 + x div 64 = 224"
    then have "x div 64 = 0" by linarith
    from e0 [OF this] show "160 \<le> 128 + x mod 64" by linarith
  next
    assume "224 + x div 64 = 237"
    then have "x div 64 = 13" by linarith
    from ed [OF this] show "128 + x mod 64 < 160" by linarith
  next
    assume "224 + x div 64 = 240"
    with y show "144 \<le> 128 + x mod 64" by linarith
  next
    assume "224 + x div 64 = 244"
    with y show "128 + x mod 64 < 144" by linarith
  qed
  have v: "(x div 64 * 64 + x mod 64) * 64 + cp mod 64 = cp"
    by (simp add: x_def)
  show ?thesis using y v so
    by (simp add: l tail_byte tail_cont Let_def flip: x_def)
qed

lemma decode_encode_cp4:
  assumes "65536 \<le> cp" "cp < 1114112"
  shows "decode_utf8 (char_of (240 + cp div 64 div 64 div 64)
                      # char_of (128 + cp div 64 div 64 mod 64)
                      # char_of (128 + cp div 64 mod 64) # char_of (128 + cp mod 64) # rest)
         = emit cp (decode_utf8 rest)"
proof -
  define x where "x = cp div 64"
  define y where "y = x div 64"
  have x: "1024 \<le> x" "x < 17408"
    using assms unfolding x_def by (auto intro: div64_le div64_less)
  then have y: "16 \<le> y" "y < 272"
    unfolding y_def by (auto intro: div64_le div64_less)
  then have z: "y div 64 < 5" by (auto intro: div64_less)
  then have l: "byte (char_of (240 + y div 64)) = 240 + y div 64"
    by (intro byte_char_of) linarith
  have f0: "16 \<le> y mod 64" if "y div 64 = 0"
    using y that split64 [of y] by simp
  have f4: "y mod 64 < 16" if "y div 64 = 4"
    using y that split64 [of y] by linarith
  have so: "second_ok (char_of (240 + y div 64)) (char_of (128 + y mod 64))"
    unfolding second_ok_def l tail_byte
  proof (intro conjI impI)
    show "cont (char_of (128 + y mod 64))" by (rule tail_cont)
  next
    assume "240 + y div 64 = 224"
    then show "160 \<le> 128 + y mod 64" by linarith
  next
    assume "240 + y div 64 = 237"
    then show "128 + y mod 64 < 160" by linarith
  next
    assume "240 + y div 64 = 240"
    then have "y div 64 = 0" by linarith
    from f0 [OF this] show "144 \<le> 128 + y mod 64" by linarith
  next
    assume "240 + y div 64 = 244"
    then have "y div 64 = 4" by linarith
    from f4 [OF this] show "128 + y mod 64 < 144" by linarith
  qed
  have v: "((y div 64 * 64 + y mod 64) * 64 + x mod 64) * 64 + cp mod 64 = cp"
    by (simp add: x_def y_def)
  show ?thesis using z v so
    by (simp add: l tail_byte tail_cont Let_def flip: x_def y_def)
qed

lemma decode_encode_cp:
  assumes "encode_cp cp = Some bs"
  shows "decode_utf8 (bs @ rest) = emit cp (decode_utf8 rest)"
proof -
  consider "cp < 128" | "128 \<le> cp" "cp < 2048" | "2048 \<le> cp" "cp < 65536" "\<not> surrogate cp"
    | "65536 \<le> cp" "cp < 1114112"
    using assms by (auto simp: encode_cp_def split: if_splits)
  then show ?thesis
  proof cases
    case 1
    with assms show ?thesis by (auto simp: encode_cp_def byte_char_of)
  next
    case 2
    with assms have "bs = [char_of (192 + cp div 64), char_of (128 + cp mod 64)]"
      by (auto simp: encode_cp_def)
    with decode_encode_cp2 [OF 2] show ?thesis by simp
  next
    case 3
    with assms have "bs = [char_of (224 + cp div 64 div 64), char_of (128 + cp div 64 mod 64),
                    char_of (128 + cp mod 64)]"
      by (auto simp: encode_cp_def)
    with decode_encode_cp3 [OF 3] show ?thesis by simp
  next
    case 4
    with assms have "bs = [char_of (240 + cp div 64 div 64 div 64),
              char_of (128 + cp div 64 div 64 mod 64),
              char_of (128 + cp div 64 mod 64), char_of (128 + cp mod 64)]"
      by (auto simp: encode_cp_def)
    with decode_encode_cp4 [OF 4] show ?thesis by simp
  qed
qed

lemma decode_encode: "encode_utf8 s = Inr b \<Longrightarrow> decode_utf8 b = Inr s"
proof (induction s arbitrary: b)
  case Nil
  then show ?case by simp
next
  case (Cons cp s)
  then obtain bs r where e: "encode_cp cp = Some bs" "encode_utf8 s = Inr r" "b = bs @ r"
    by (auto split: option.splits sum.splits)
  from Cons.IH [OF e(2)] decode_encode_cp [OF e(1)] show ?case
    by (simp add: e(3) emit_def)
qed



lemma byte_less: "byte c < 256"
  by (simp add: byte_def)








section \<open>Properties of the data-lookup helper\<close>




section \<open>Properties of the scalar wrappers\<close>

text \<open>
  C7, as the specification states it:
  \<^verbatim>\<open>to_str(to_str(to_bytes(x))) == to_str(x)\<close> for every text string \<open>x\<close>. A text
  string may hold a lone surrogate, which UTF-8 cannot encode: for \<^verbatim>\<open>x = '\udc80'\<close>
  the call \<^verbatim>\<open>to_bytes(x)\<close> raises \<^verbatim>\<open>UnicodeEncodeError\<close>, while \<^verbatim>\<open>to_str(x)\<close>
  returns \<open>x\<close>.
\<close>

theorem to_bytes_surrogate_counterexample:
  "and_then (and_then (to_bytes (\<lambda>v. []) (VStr [56448])) to_str) to_str = Inl UnicodeEncodeError
   \<and> to_str (VStr [56448]) = Inr (VStr [56448])"
  by (simp add: to_bytes_def to_str_def and_then_def py_str_def encode_cp_def char_of_eq_iff surrogate_def)

text \<open>
  C7, amended: both wrappers are idempotent,
  \<^verbatim>\<open>to_bytes(to_bytes(x)) == to_bytes(x)\<close> and \<^verbatim>\<open>to_str(to_str(x)) == to_str(x)\<close>
  for every value \<open>x\<close> (when the first call raises, so does the composition, with
  the same exception); and \<^verbatim>\<open>to_str(to_str(to_bytes(x))) == to_str(x)\<close> for every
  text string \<open>x\<close> that has a UTF-8 encoding, that is, holds no lone surrogate.
\<close>

theorem scalar_wrappers_idempotent:
  "and_then (to_bytes R x) (to_bytes R) = to_bytes R x
   \<and> and_then (to_str x) to_str = to_str x
   \<and> (encode_utf8 s = Inr b \<longrightarrow>
        and_then (and_then (to_bytes R (VStr s)) to_str) to_str = to_str (VStr s))"
proof (intro conjI impI)
  show "and_then (to_bytes R x) (to_bytes R) = to_bytes R x"
    by (auto simp: to_bytes_def and_then_def split: sum.splits)
  show "and_then (to_str x) to_str = to_str x"
    by (cases x) (auto simp: to_str_def and_then_def split: sum.splits)
  assume e: "encode_utf8 s = Inr b"
  from decode_encode [OF e] e
  show "and_then (and_then (to_bytes R (VStr s)) to_str) to_str = to_str (VStr s)"
    by (simp add: to_bytes_def to_str_def and_then_def py_str_def)
qed

theorem scalar_wrappers_idempotent_witness:
  "encode_utf8 [114, 233] = Inr [CHR ''r'', CHR 0xC3, CHR 0xA9]
   \<and> and_then (and_then (to_bytes (\<lambda>v. []) (VStr [114, 233])) to_str) to_str
       = Inr (VStr [114, 233])"
proof -
  have e: "encode_utf8 [114, 233] = Inr [CHR ''r'', CHR 0xC3, CHR 0xA9]"
    by (simp add: encode_cp_def char_of_eq_iff)
  have s: "to_str (VStr [114, 233]) = Inr (VStr [114, 233])" by (simp add: to_str_def)
  from scalar_wrappers_idempotent
    [of "\<lambda>v. []" "VNone" "[114, 233]" "[CHR ''r'', CHR 0xC3, CHR 0xA9]"] e s
  show ?thesis by simp
qed

lemma path_join_fold:
  "foldl (\<lambda>acc x. and_then acc (\<lambda>p2. and_then (f x) (\<lambda>y. Inr (p2 @ [y])))) (Inr acc) p
   = and_then (sequence_sum (map f p)) (\<lambda>ys. Inr (acc @ ys))"
proof (induction p arbitrary: acc)
  case Nil
  then show ?case by (simp add: and_then_def)
next
  case (Cons x p)
  show ?case
  proof (cases "f x")
    case (Inl e)
    have "foldl (\<lambda>acc x. and_then acc (\<lambda>p2. and_then (f x) (\<lambda>y. Inr (p2 @ [y])))) (Inl e) p
          = Inl e"
      by (induction p) (simp_all add: and_then_def)
    with Inl show ?thesis by (simp add: and_then_def)
  next
    case (Inr y)
    with Cons.IH [of "acc @ [y]"] show ?thesis
      by (simp add: and_then_def split: sum.splits)
  qed
qed

text \<open>
  C10: for every value \<open>v\<close> that is not a byte string, text or not,
  \<^verbatim>\<open>to_bytes(v)\<close> is \<^verbatim>\<open>str(v).encode('utf-8')\<close>; so \<^verbatim>\<open>to_bytes(5) == b'5'\<close>, and
  likewise for \<^verbatim>\<open>True\<close> and \<^verbatim>\<open>None\<close>. \<^verbatim>\<open>path_join\<close> coerces all segments, and
  when it reaches the join primitive it hands it the coerced segments, every one a
  byte string.
\<close>

theorem to_bytes_coerces_everything:
  "(type_of v \<noteq> TBytes \<longrightarrow>
      to_bytes R v = and_then (encode_utf8 (py_str R v)) (\<lambda>b. Inr (VBytes b)))
   \<and> to_bytes R (VInt 5) = Inr (VBytes ''5'')
   \<and> to_bytes R (VBool True) = Inr (VBytes ''True'')
   \<and> to_bytes R VNone = Inr (VBytes ''None'')
   \<and> path_join R join_orig a p =
       and_then (sequence_sum (map (to_bytes R) p)) (\<lambda>p2.
       and_then (to_bytes R a) (\<lambda>a'. Inr (join_orig a' p2)))
   \<and> (\<forall>x y. x \<in> set (a # p) \<and> to_bytes R x = Inr y \<longrightarrow> type_of y = TBytes)"
proof (intro conjI impI allI)
  show "to_bytes R (VInt 5) = Inr (VBytes ''5'')"
    by (simp add: to_bytes_def py_str_def str_int_def digit_char_def uni_def ord_def
        and_then_def encode_cp_def char_of_eq_iff)
  show "to_bytes R (VBool True) = Inr (VBytes ''True'')"
    by (simp add: to_bytes_def py_str_def uni_def ord_def and_then_def encode_cp_def char_of_eq_iff)
  show "to_bytes R VNone = Inr (VBytes ''None'')"
    by (simp add: to_bytes_def py_str_def uni_def ord_def and_then_def encode_cp_def char_of_eq_iff)
  show "path_join R join_orig a p =
       and_then (sequence_sum (map (to_bytes R) p)) (\<lambda>p2.
       and_then (to_bytes R a) (\<lambda>a'. Inr (join_orig a' p2)))"
    unfolding path_join_def path_join_fold
    by (simp add: and_then_def split: sum.splits)
next
  assume "type_of v \<noteq> TBytes"
  then show "to_bytes R v = and_then (encode_utf8 (py_str R v)) (\<lambda>b. Inr (VBytes b))"
    by (simp add: to_bytes_def)
next
  fix x y assume "x \<in> set (a # p) \<and> to_bytes R x = Inr y"
  then show "type_of y = TBytes"
    by (auto simp: to_bytes_def and_then_def split: if_splits sum.splits)
qed

theorem to_bytes_coerces_everything_witness:
  "type_of (VInt (- 12)) \<noteq> TBytes
   \<and> to_bytes (\<lambda>v. []) (VInt (- 12)) = Inr (VBytes ''-12'')
   \<and> path_join (\<lambda>v. []) (\<lambda>a p. a # p) (VStr [97]) [VInt 7, VBytes ''c'']
       = Inr [VBytes ''a'', VBytes ''7'', VBytes ''c'']"
proof -
  have t: "type_of (VInt (- 12)) \<noteq> TBytes" by simp
  have s: "encode_utf8 (py_str (\<lambda>v. []) (VInt (- 12))) = Inr ''-12''"
    by (simp add: py_str_def str_int_def digit_char_def uni_def ord_def encode_cp_def char_of_eq_iff)
  have m: "map (to_bytes (\<lambda>v. [])) [VInt 7, VBytes ''c''] = [Inr (VBytes ''7''), Inr (VBytes ''c'')]"
    "to_bytes (\<lambda>v. []) (VStr [97]) = Inr (VBytes ''a'')"
    by (simp_all add: to_bytes_def py_str_def str_int_def digit_char_def uni_def ord_def
        and_then_def encode_cp_def char_of_eq_iff)
  from to_bytes_coerces_everything
    [of "VInt (- 12)" "\<lambda>v. []" "\<lambda>a p. a # p" "VStr [97]" "[VInt 7, VBytes ''c'']"] t s m
  show ?thesis by (simp add: and_then_def)
qed

section \<open>Properties of the encoding normalizer\<close>

text \<open>
  C5: a mapping, tuple or list normalized with kinds \<open>frm\<close> and \<open>to\<close> should have
  every key, value and element normalized with the same \<open>frm\<close> and \<open>to\<close>. The
  recursion drops them: with \<^verbatim>\<open>frm=bytes, to=str\<close> the byte string \<^verbatim>\<open>b'k'\<close> alone
  is decoded, but inside a mapping or a list it comes back unchanged.
\<close>

theorem convert_nested_kinds_dropped:
  "convert (VBytes ''k'') TBytes TStr = Inr (VStr (uni ''k''))
   \<and> convert (VDict [(VBytes ''k'', VBytes ''v'')]) TBytes TStr
       = Inr (VDict [(VBytes ''k'', VBytes ''v'')])
   \<and> convert (VList [VBytes ''k'']) TBytes TStr = Inr (VList [VBytes ''k''])"
  by (simp add: convert.simps isinstance_def py_dict_def and_then_def byte_def emit_def
      uni_def ord_def)















section \<open>Properties of the SSH argument-injection guard\<close>

lemma startswith_dash: "startswith s (uni ''-'') = (\<exists>t. s = ord CHR ''-'' # t)"
  by (cases s) (auto simp: startswith_def uni_def)

text \<open>
  C1: for every host string \<open>h\<close>, \<^verbatim>\<open>checksafessh(h)\<close> raises the abort exactly when
  the percent-decoding of \<open>h\<close> starts with \<^verbatim>\<open>-\<close>; the message is formatted with the
  decoded host, and for a safe host the call returns with nothing done. It fails
  for \<^verbatim>\<open>-oProxyCommand=x\<close> and for \<^verbatim>\<open>%2doProxyCommand=x\<close>, and returns for
  \<^verbatim>\<open>github.com\<close>.
\<close>

theorem checksafessh_guard:
  "checksafessh h =
     (if (\<exists>t. unquote h = ord CHR ''-'' # t)
      then Inl (Abort ''potentially unsafe hostname: %r'' (unquote h))
      else Inr ())
   \<and> checksafessh (uni ''-oProxyCommand=x'')
       = Inl (Abort ''potentially unsafe hostname: %r'' (uni ''-oProxyCommand=x''))
   \<and> checksafessh (uni ''%2doProxyCommand=x'')
       = Inl (Abort ''potentially unsafe hostname: %r'' (uni ''-oProxyCommand=x''))
   \<and> checksafessh (uni ''github.com'') = Inr ()"
proof (intro conjI)
  show "checksafessh h =
     (if (\<exists>t. unquote h = ord CHR ''-'' # t)
      then Inl (Abort ''potentially unsafe hostname: %r'' (unquote h))
      else Inr ())"
    by (simp add: checksafessh_def Let_def startswith_dash)
  show "checksafessh (uni ''-oProxyCommand=x'')
       = Inl (Abort ''potentially unsafe hostname: %r'' (uni ''-oProxyCommand=x''))"
    by (simp add: checksafessh_def unquote_def startswith_def uni_def ord_def)
  show "checksafessh (uni ''%2doProxyCommand=x'')
       = Inl (Abort ''potentially unsafe hostname: %r'' (uni ''-oProxyCommand=x''))"
    by (simp add: checksafessh_def unquote_def startswith_def uni_def ord_def
        unquote_parts.simps hexval_def byte_def char_of_eq_iff Let_def)
  show "checksafessh (uni ''github.com'') = Inr ()"
    by (simp add: checksafessh_def unquote_def startswith_def uni_def ord_def)
qed

section \<open>Round trip of the two flat key-value formats\<close>
















section \<open>Properties of the endpoint classifier\<close>

subsection \<open>Loops over one character\<close>

lemma first_simps [simp]: "first [] = None" "first (x # xs) = Some x"
  by (simp_all add: first_def)

lemma first_append: "first (xs @ ys) = (case first xs of None \<Rightarrow> first ys | Some x \<Rightarrow> Some x)"
  by (cases xs) simp_all

lemma first_concat_map:
  "first (concat (map F L)) =
     (case find (\<lambda>x. F x \<noteq> []) L of None \<Rightarrow> None | Some x \<Rightarrow> first (F x))"
proof (induction L)
  case Nil
  then show ?case by simp
next
  case (Cons x L)
  then show ?case by (cases "F x") (simp_all add: first_append)
qed

lemma first_None: "first xs = None \<longleftrightarrow> xs = []"
  by (cases xs) simp_all

lemma remaining_at: "k \<le> length s \<Longrightarrow> remaining (at s g k) = length s - k"
  by (simp add: remaining_def at_def)

lemma step_at:
  "step P (at s g k) = (if k < length s \<and> P (s ! k) then [at s g (Suc k)] else [])"
proof (cases "k < length s")
  case True
  then have d: "drop k s = s ! k # drop (Suc k) s" by (simp add: Cons_nth_drop_Suc)
  have t: "take (Suc k) s = take k s @ [s ! k]" using True by (simp add: take_Suc_conv_app_nth)
  show ?thesis using True by (simp add: step_def at_def d t)
next
  case False
  then show ?thesis by (simp add: step_def at_def)
qed

lemma run_at_Suc:
  "k < length s \<Longrightarrow> P (s ! k) \<Longrightarrow> run P (drop k s) = Suc (run P (drop (Suc k) s))"
  by (simp add: run_def Cons_nth_drop_Suc [symmetric])

lemma run_at_0:
  "\<not> (k < length s \<and> P (s ! k)) \<Longrightarrow> run P (drop k s) = 0"
  by (cases "k < length s") (simp_all add: run_def Cons_nth_drop_Suc [symmetric])

lemma run_le: "k + run P (drop k s) \<le> length s \<or> length s < k"
  using length_takeWhile_le [of P "drop k s"] by (simp add: run_def) arith

lemma lim_0: "lim n 0 = 0"
  by (simp add: lim_def split: option.splits)

lemma lim_Suc: "n \<noteq> Some 0 \<Longrightarrow> lim n (Suc x) = Suc (lim (map_option (\<lambda>k. k - 1) n) x)"
  by (cases n) (auto simp: lim_def min_def)

lemma lim_Some_0: "lim (Some 0) x = 0"
  by (simp add: lim_def)

text \<open>A greedy loop over a one-character pattern: it stops after \<open>K\<close>, \<open>K - 1\<close>, ... characters.\<close>

lemma rep_step:
  assumes r: "\<And>st. matches db r st = step P st"
  shows "matches db (Rep m n r) (at s g k) =
           map (at s g) (rev [k + m ..< Suc (k + lim n (run P (drop k s)))])"
proof (induction "length s - k" arbitrary: k m n)
  case 0
  then have e: "\<not> (k < length s \<and> P (s ! k))" by simp
  have "matches db r (at s g k) = []" by (simp add: r step_at e)
  then show ?case by (simp add: matches.simps(6) run_at_0 [where P = P and k = k and s = s, OF e] lim_0)
next
  case (Suc d)
  show ?case
  proof (cases "k < length s \<and> P (s ! k)")
    case False
    have "matches db r (at s g k) = []" using False by (simp add: r step_at)
    then show ?thesis by (simp add: matches.simps(6) run_at_0 [where P = P and k = k and s = s, OF False] lim_0)
  next
    case True
    then have one: "matches db r (at s g k) = [at s g (Suc k)]" by (simp add: r step_at)
    have rem: "remaining (at s g (Suc k)) < remaining (at s g k)"
      using True by (auto simp: remaining_at)
    show ?thesis
    proof (cases "n = Some 0")
      case True
      then show ?thesis by (simp add: matches.simps(6) lim_Some_0)
    next
      case False
      from Suc.hyps(2) have d: "d = length s - Suc k" by simp
      let ?n' = "map_option (\<lambda>k. k - 1) n"
      let ?K' = "lim ?n' (run P (drop (Suc k) s))"
      have K: "lim n (run P (drop k s)) = Suc ?K'"
        using True by (simp add: run_at_Suc lim_Suc [OF False])
      have IH: "matches db (Rep (m - 1) ?n' r) (at s g (Suc k))
                = map (at s g) (rev [Suc k + (m - 1) ..< Suc (Suc k + ?K')])"
        by (rule Suc.hyps(1) [OF d])
      show ?thesis
      proof (cases m)
        case 0
        have "[k ..< Suc (Suc (k + ?K'))] = k # [Suc k ..< Suc (Suc (k + ?K'))]"
          by (simp add: upt_conv_Cons)
        then show ?thesis using False one rem IH by (simp add: matches.simps(6) K 0)
      next
        case (Suc m')
        then show ?thesis using False one rem IH by (simp add: matches.simps(6) K)
      qed
    qed
  qed
qed

lemmas matches_Any = matches.simps(2)

lemmas matches_Chr = matches.simps(3)

lemmas matches_Set = matches.simps(4)

lemmas matches_Cat = matches.simps(5)

lemmas matches_Rep = matches.simps(6)

lemmas matches_Grp = matches.simps(7)

subsection \<open>The user prefix\<close>

lemma concat_map_if:
  "concat (map (\<lambda>j. if C j then [f j] else []) xs) = map f (filter C xs)"
  by (induction xs) simp_all

lemma find_append:
  "find Q (xs @ ys) = (case find Q xs of None \<Rightarrow> find Q ys | Some x \<Rightarrow> Some x)"
  by (induction xs) simp_all

lemma find_map_None: "(\<forall>y \<in> set ys. \<not> Q (S y)) \<Longrightarrow> find Q (map S ys) = None"
  by (induction ys) simp_all

lemma find_None_set: "find Q xs = None \<longleftrightarrow> (\<forall>y \<in> set xs. \<not> Q y)"
  by (induction xs) auto

text \<open>
  Backtracking into a loop tries again what it has tried: when every list \<open>G p\<close>
  holds, before \<open>S p\<close>, only states of earlier elements, the first hit among all
  of them is the first hit among the \<open>S p\<close>.
\<close>

lemma find_concat_priority:
  fixes xs :: "nat list"
  assumes "sorted_wrt (>) xs"
    and "\<And>p. p \<in> set xs \<Longrightarrow>
           \<exists>ys. set ys \<subseteq> {y \<in> set xs. p < y} \<and> find Q (G p) = find Q (map S (ys @ [p]))"
  shows "find Q (concat (map G xs)) = find Q (map S xs)"
  using assms
proof (induction xs rule: rev_induct)
  case Nil
  then show ?case by simp
next
  case (snoc x xs)
  from snoc.prems(1) have sorted: "sorted_wrt (>) xs" and above: "\<forall>y \<in> set xs. x < y"
    by (auto simp: sorted_wrt_append)
  have "find Q (concat (map G xs)) = find Q (map S xs)"
  proof (rule snoc.IH [OF sorted])
    fix p assume p: "p \<in> set xs"
    then have "p \<in> set (xs @ [x])" by simp
    from snoc.prems(2) [OF this] obtain ys
      where ys: "set ys \<subseteq> {y \<in> set (xs @ [x]). p < y}"
        and f: "find Q (G p) = find Q (map S (ys @ [p]))" by blast
    from above p have "x < p" by simp
    with ys have "set ys \<subseteq> {y \<in> set xs. p < y}" by auto
    with f show "\<exists>ys. set ys \<subseteq> {y \<in> set xs. p < y} \<and> find Q (G p) = find Q (map S (ys @ [p]))"
      by blast
  qed
  then have IH: "find Q (concat (map G xs)) = find Q (map S xs)" .
  from snoc.prems(2) [of x] obtain ys
    where ys: "set ys \<subseteq> {y \<in> set (xs @ [x]). x < y}"
      and f: "find Q (G x) = find Q (map S (ys @ [x]))" by auto
  from ys have sub: "set ys \<subseteq> set xs" by auto
  show ?case
  proof (cases "find Q (map S xs)")
    case None
    then have "\<forall>y \<in> set xs. \<not> Q (S y)" by (simp add: find_None_set)
    with sub have "find Q (map S ys) = None" by (intro find_map_None) auto
    with f None IH show ?thesis by (simp add: find_append)
  next
    case (Some r)
    with IH show ?thesis by (simp add: find_append)
  qed
qed

lemma takeWhile_drop_le:
  "j \<le> length (takeWhile P xs) \<Longrightarrow> takeWhile P (drop j xs) = drop j (takeWhile P xs)"
proof (induction xs arbitrary: j)
  case Nil
  then show ?case by simp
next
  case (Cons x xs)
  then show ?case by (cases j) (auto split: if_splits)
qed

lemma run_shift:
  assumes "j \<le> run P (drop k s)"
  shows "run P (drop (k + j) s) = run P (drop k s) - j"
proof -
  have "drop (k + j) s = drop j (drop k s)" by (simp add: add.commute)
  then show ?thesis using assms takeWhile_drop_le [of j P "drop k s"] by (simp add: run_def)
qed

lemma line_end_shift: "k \<le> p \<Longrightarrow> p \<le> line_end s k \<Longrightarrow> line_end s p = line_end s k"
  using run_shift [of "p - k" "\<lambda>c. c \<noteq> 10" k s] by (simp add: line_end_def)

lemma line_end_le: "k \<le> length s \<Longrightarrow> line_end s k \<le> length s"
  using run_le [of k "\<lambda>c. c \<noteq> 10" s] by (simp add: line_end_def)

lemma line_end_ge: "k \<le> line_end s k"
  by (simp add: line_end_def)

lemma run_stop: "k + run P (drop k s) < length s \<Longrightarrow> \<not> P (s ! (k + run P (drop k s)))"
proof -
  assume l: "k + run P (drop k s) < length s"
  let ?r = "run P (drop k s)"
  have "?r < length (drop k s)" using l by simp
  from nth_length_takeWhile [of P "drop k s"] this
  have "\<not> P (drop k s ! ?r)" by (simp add: run_def)
  then show ?thesis using l by (simp add: add.commute)
qed

lemma run_inside: "k \<le> j \<Longrightarrow> j < k + run P (drop k s) \<Longrightarrow> P (s ! j)"
proof -
  assume a: "k \<le> j" "j < k + run P (drop k s)"
  then have "j - k < length (takeWhile P (drop k s))" by (simp add: run_def)
  from takeWhile_nth [OF this] nth_mem [OF this] have "P (drop k s ! (j - k))"
    by (metis set_takeWhileD)
  moreover have "k + (j - k) < length s"
    using a length_takeWhile_le [of P "drop k s"] by (simp add: run_def)
  ultimately show ?thesis using a by simp
qed

lemma matches_user:
  "matches db user_re (at s g k) = map (at s g) (after_ats s k)"
proof -
  have "matches db (Rep 1 None Any) (at s g k)
        = map (at s g) (rev [k + 1 ..< Suc (k + lim None (run (\<lambda>c. c \<noteq> 10) (drop k s)))])"
    by (rule rep_step) (simp add: matches_Any)
  then have "matches db user_re (at s g k)
        = concat (map (\<lambda>j. if j < length s \<and> s ! j = 64 then [at s g (Suc j)] else [])
            (rev [Suc k ..< Suc (line_end s k)]))"
    by (simp add: user_re_def matches_Cat matches_Chr step_at lim_def line_end_def comp_def)
  then show ?thesis by (simp add: concat_map_if after_ats_def comp_def)
qed

lemma after_ats_sorted: "sorted_wrt (>) (after_ats s k)"
proof -
  have "sorted_wrt (>) (rev [Suc k ..< Suc (line_end s k)])"
    by (simp only: sorted_wrt_rev sorted_wrt_upt)
  then have "sorted_wrt (>) (filter (\<lambda>j. j < length s \<and> s ! j = 64) (rev [Suc k ..< Suc (line_end s k)]))"
    by (rule sorted_wrt_filter)
  then show ?thesis by (simp add: after_ats_def sorted_wrt_map)
qed

lemma line_end_newline: "line_end s k < length s \<Longrightarrow> s ! line_end s k = 10"
  using run_stop [of k "\<lambda>c. c \<noteq> 10" s] by (simp add: line_end_def)

lemma after_ats_mem:
  "p \<in> set (after_ats s k) \<longleftrightarrow>
     (\<exists>j. p = Suc j \<and> k < j \<and> j < line_end s k \<and> j < length s \<and> s ! j = 64)"
proof -
  have "j < line_end s k \<longleftrightarrow> j \<le> line_end s k" if "j < length s" "s ! j = 64" for j
    using that line_end_newline [of s k] by (cases "j = line_end s k") auto
  then show ?thesis
    unfolding after_ats_def set_map set_filter set_rev set_upt
    by (auto simp: less_Suc_eq_le Suc_le_eq)
qed

lemma after_ats_nested:
  assumes "p \<in> set (after_ats s k)"
  shows "set (after_ats s p) \<subseteq> {y \<in> set (after_ats s k). p < y}"
    and "k < p" and "p \<le> length s" and "p \<le> line_end s k"
proof -
  from assms obtain j where j: "p = Suc j" "k < j" "j < line_end s k" "j < length s"
    by (auto simp: after_ats_mem)
  then show "k < p" "p \<le> length s" "p \<le> line_end s k" by simp_all
  then have "line_end s p = line_end s k" by (intro line_end_shift) simp_all
  then have e: "line_end s (Suc j) = line_end s k" by (simp add: j(1))
  show "set (after_ats s p) \<subseteq> {y \<in> set (after_ats s k). p < y}"
    using j by (auto simp: after_ats_mem e)
qed

lemma star_user_unfold:
  assumes "k \<le> length s"
  shows "matches db (Rep 0 None user_re) (at s g k) =
     concat (map (\<lambda>p. matches db (Rep 0 None user_re) (at s g p)) (after_ats s k)) @ [at s g k]"
proof -
  have rem: "remaining (at s g p) < remaining (at s g k)" if "p \<in> set (after_ats s k)" for p
    using after_ats_nested(2,3) [OF that] assms by (simp add: remaining_at)
  have eq: "map (\<lambda>st'. if remaining st' < remaining (at s g k)
                    then matches db (Rep 0 None user_re) st' else [])
          (map (at s g) (after_ats s k))
        = map (\<lambda>p. matches db (Rep 0 None user_re) (at s g p)) (after_ats s k)"
    unfolding map_map comp_def by (rule map_cong [OF refl]) (simp add: rem)
  have "matches db (Rep 0 None user_re) (at s g k)
        = concat (map (\<lambda>st'. if remaining st' < remaining (at s g k)
                    then matches db (Rep 0 None user_re) st' else [])
            (matches db user_re (at s g k))) @ [at s g k]"
    by (subst matches_Rep) (simp cong: if_cong)
  then show ?thesis by (simp only: matches_user eq)
qed

lemma star_user_find:
  "k \<le> length s \<Longrightarrow>
   find Q (matches db (Rep 0 None user_re) (at s g k))
     = find Q (map (at s g) (after_ats s k @ [k]))"
proof (induction "length s - k" arbitrary: k rule: less_induct)
  case less
  have "find Q (concat (map (\<lambda>p. matches db (Rep 0 None user_re) (at s g p)) (after_ats s k)))
        = find Q (map (at s g) (after_ats s k))"
  proof (rule find_concat_priority [OF after_ats_sorted])
    fix p assume p: "p \<in> set (after_ats s k)"
    note N = after_ats_nested [OF p]
    have "length s - p < length s - k" using N(2,3) by simp
    from less.hyps [OF this N(3)] N(1)
    show "\<exists>ys. set ys \<subseteq> {y \<in> set (after_ats s k). p < y}
            \<and> find Q (matches db (Rep 0 None user_re) (at s g p)) = find Q (map (at s g) (ys @ [p]))"
      by blast
  qed
  then show ?case
    by (subst star_user_unfold [OF less.prems]) (simp add: find_append)
qed

subsection \<open>The host token and the path remainder\<close>

lemma git_re_parts: "git_re = Cat (Rep 0 None user_re) tail_re"
  by (simp add: git_re_def tail_re_def host_re_def user_re_def host_items_def Star_def Plus_def
      Opt_def ord_def)

lemma host_char_not [simp]:
  "\<not> host_char db 91" "\<not> host_char db 93" "\<not> host_char db 64" "\<not> host_char db 10"
  "host_char db 58"
  by (simp_all add: host_char_def host_items_def)

lemma find_Some_P: "find Q xs = Some x \<Longrightarrow> Q x \<and> x \<in> set xs"
  by (induction xs) (auto split: if_splits)

lemma lim_one:
  "lim (Some (Suc 0)) (run P (drop p s)) = (if p < length s \<and> P (s ! p) then Suc 0 else 0)"
proof (cases "p < length s \<and> P (s ! p)")
  case True
  then show ?thesis by (simp add: run_at_Suc lim_def)
next
  case False
  from run_at_0 [where P = P and k = p and s = s, OF this] False show ?thesis
    by (simp add: lim_def)
qed

lemma opt_step:
  assumes "\<And>st. matches db r st = step P st"
  shows "matches db (Rep 0 (Some (Suc 0)) r) (at s g p) =
           (if p < length s \<and> P (s ! p) then [at s g (Suc p), at s g p] else [at s g p])"
proof -
  have "[p ..< Suc (Suc p)] = [p, Suc p]" by (simp add: upt_conv_Cons)
  then show ?thesis
    by (simp add: rep_step [of db r P, OF assms] lim_one)
qed

lemma matches_core_close:
  "matches db (Cat (Rep (Suc 0) None (Set host_items)) (Rep 0 (Some (Suc 0)) (Set [Lit 93])))
     (at s g q)
   = map (at s g) (ends db s q)"
proof -
  let ?H = "run (host_char db) (drop q s)"
  let ?E = "q + ?H"
  let ?close = "\<lambda>e. if e < length s \<and> s ! e = 93 then [at s g (Suc e), at s g e] else [at s g e]"
  have core: "matches db (Rep (Suc 0) None (Set host_items)) (at s g q)
              = map (at s g) (rev [Suc q ..< Suc ?E])"
  proof -
    have stp: "\<And>st. matches db (Set host_items) st = step (host_char db) st"
      by (simp add: matches_Set host_char_def [abs_def])
    show ?thesis
      using rep_step [where r = "Set host_items" and P = "host_char db" and m = "Suc 0"
          and n = None and db = db and s = s and g = g and k = q, OF stp]
      by (simp add: lim_def)
  qed
  have close: "matches db (Rep 0 (Some (Suc 0)) (Set [Lit 93])) (at s g e) = ?close e" for e
    using opt_step [of db "Set [Lit 93]" "\<lambda>c. c = 93" s g e]
    by (simp add: matches_Set)
  have all: "matches db (Cat (Rep (Suc 0) None (Set host_items))
                 (Rep 0 (Some (Suc 0)) (Set [Lit 93])))
               (at s g q)
             = concat (map ?close (rev [Suc q ..< Suc ?E]))"
    by (simp add: matches_Cat core close comp_def)
  have inner: "concat (map ?close (rev [Suc q ..< ?E])) = map (at s g) (rev [Suc q ..< ?E])"
  proof -
    have "?close e = [at s g e]" if "e \<in> set (rev [Suc q ..< ?E])" for e
    proof -
      from that have "q \<le> e" "e < ?E" by simp_all
      from run_inside [OF this] have "host_char db (s ! e)" .
      then have "s ! e \<noteq> 93" by auto
      then show ?thesis by simp
    qed
    then have m: "map ?close (rev [Suc q ..< ?E]) = map (\<lambda>e. [at s g e]) (rev [Suc q ..< ?E])"
      by (intro map_cong [OF refl])
    show ?thesis unfolding m by (rule concat_map_singleton)
  qed
  show ?thesis
  proof (cases "?H = 0")
    case True
    then show ?thesis by (simp add: all ends_def)
  next
    case False
    then have u: "[Suc q ..< Suc ?E] = [Suc q ..< ?E] @ [?E]" by simp
    have "concat (map ?close (rev [Suc q ..< Suc ?E]))
          = ?close ?E @ concat (map ?close (rev [Suc q ..< ?E]))"
      by (simp only: u rev_append rev.simps map_append concat_append append_Nil list.map
          concat.simps append_Nil2)
    then show ?thesis using False
      by (simp add: all inner ends_def Let_def u)
  qed
qed

lemma ends_blocked: "\<not> host_char db (s ! q) \<Longrightarrow> q < length s \<Longrightarrow> ends db s q = []"
  using run_at_0 [where P = "host_char db" and k = q and s = s] by (simp add: ends_def)

lemma matches_host:
  "matches db host_re (at s g p) = map (at s g) (hostends db s p)"
proof -
  have open_br: "matches db (Rep 0 (Some (Suc 0)) (Set [Lit 91])) (at s g p)
      = (if p < length s \<and> s ! p = 91 then [at s g (Suc p), at s g p] else [at s g p])"
    using opt_step [of db "Set [Lit 91]" "\<lambda>c. c = 91" s g p]
    by (simp add: matches_Set)
  show ?thesis
  proof (cases "p < length s \<and> s ! p = 91")
    case True
    then have "ends db s p = []" by (intro ends_blocked) simp_all
    with True show ?thesis
      by (simp add: host_re_def matches_Cat [of db "Rep 0 (Some (Suc 0)) (Set [Lit 91])"] open_br
          matches_core_close hostends_def)
  next
    case False
    then show ?thesis
      by (auto simp: host_re_def matches_Cat [of db "Rep 0 (Some (Suc 0)) (Set [Lit 91])"] open_br
          matches_core_close hostends_def)
  qed
qed

lemma ends_range: "e \<in> set (ends db s q) \<Longrightarrow> q < e \<and> (q \<le> length s \<longrightarrow> e \<le> length s)"
  using run_le [of q "host_char db" s]
  by (auto simp: ends_def Let_def split: if_splits)

lemma hostends_range:
  "e \<in> set (hostends db s p) \<Longrightarrow> p < e \<and> (p \<le> length s \<longrightarrow> e \<le> length s)"
  using ends_range [of e db s p] ends_range [of e db s "Suc p"]
  by (auto simp: hostends_def split: if_splits)

lemma slice_rev:
  assumes "p \<le> e" "e \<le> length s"
  shows "rev (take (length (rev (take e s)) - length (rev (take p s))) (rev (take e s)))
         = drop p (take e s)"
proof -
  have "length (rev (take e s)) - length (rev (take p s)) = e - p" using assms by simp
  moreover have "take (e - p) (rev (take e s)) = rev (drop (length (take e s) - (e - p)) (take e s))"
    by (simp add: take_rev)
  moreover have "length (take e s) - (e - p) = p" using assms by simp
  ultimately show ?thesis by simp
qed

lemma grp_at:
  assumes "p \<le> e" "e \<le> length s"
  shows "(case at s g e of (b', a', g') \<Rightarrow>
            (b', a', (i, rev (take (length b' - length (fst (at s g p))) b')) # g'))
         = at s ((i, drop p (take e s)) # g) e"
  using slice_rev [OF assms] by (simp add: at_def)

lemma matches_grp_at:
  assumes "matches db r (at s g p) = map (at s g) es"
    and "\<And>e. e \<in> set es \<Longrightarrow> p \<le> e \<and> e \<le> length s"
  shows "matches db (Grp i r) (at s g p) = map (\<lambda>e. at s ((i, drop p (take e s)) # g) e) es"
proof -
  have "map (\<lambda>(b', a', g'). (b', a', (i, rev (take (length b' - length (fst (at s g p))) b')) # g'))
          (map (at s g) es)
        = map (\<lambda>e. at s ((i, drop p (take e s)) # g) e) es"
    unfolding map_map comp_def
    by (rule map_cong [OF refl]) (use assms(2) grp_at in auto)
  then show ?thesis by (simp add: matches_Grp assms(1))
qed

lemma matches_path:
  assumes "q \<le> length s"
  shows "matches db (Grp 2 (Rep 0 None Any)) (at s g q)
         = map (\<lambda>e. at s ((2, drop q (take e s)) # g) e) (rev [q ..< Suc (line_end s q)])"
proof (rule matches_grp_at)
  show "matches db (Rep 0 None Any) (at s g q) = map (at s g) (rev [q ..< Suc (line_end s q)])"
    using rep_step [of db Any "\<lambda>c. c \<noteq> 10" 0 None s g q]
    by (simp add: matches_Any lim_def line_end_def)
  fix e assume "e \<in> set (rev [q ..< Suc (line_end s q)])"
  then show "q \<le> e \<and> e \<le> length s" using line_end_le [OF assms] by auto
qed

lemma first_tail:
  assumes "p \<le> length s"
  shows "first (matches db tail_re (at s g p)) =
           map_option (tail_state s g p) (find (\<lambda>e. e < length s \<and> s ! e = 58) (hostends db s p))"
proof -
  let ?g1 = "\<lambda>e. (Suc 0, drop p (take e s)) # g"
  have host: "matches db (Grp (Suc 0) host_re) (at s g p)
              = map (\<lambda>e. at s (?g1 e) e) (hostends db s p)"
    by (rule matches_grp_at [OF matches_host]) (use hostends_range assms in force)
  let ?F = "\<lambda>e. matches db (Cat (Chr 58) (Grp 2 (Rep 0 None Any))) (at s (?g1 e) e)"
  have F: "?F e = (if e < length s \<and> s ! e = 58
                   then map (\<lambda>e'. at s ((2, drop (Suc e) (take e' s)) # ?g1 e) e')
                          (rev [Suc e ..< Suc (line_end s (Suc e))])
                   else [])" for e
    by (simp add: matches_Cat matches_Chr step_at matches_path)
  have ne: "?F e \<noteq> [] \<longleftrightarrow> e < length s \<and> s ! e = 58" for e
    using line_end_ge [of "Suc e" s] by (simp add: F)
  have fst: "first (?F e) = Some (tail_state s g p e)" if "e < length s \<and> s ! e = 58" for e
  proof -
    have "[Suc e ..< Suc (line_end s (Suc e))] = [Suc e ..< line_end s (Suc e)] @ [line_end s (Suc e)]"
      using line_end_ge [of "Suc e" s] by simp
    then show ?thesis using that by (simp add: F tail_state_def)
  qed
  have "matches db tail_re (at s g p) = concat (map ?F (hostends db s p))"
    by (simp add: tail_re_def matches_Cat [of db "Grp (Suc 0) host_re"] host comp_def)
  then have "first (matches db tail_re (at s g p))
      = (case find (\<lambda>e. ?F e \<noteq> []) (hostends db s p) of None \<Rightarrow> None | Some e \<Rightarrow> first (?F e))"
    by (simp add: first_concat_map)
  also have "\<dots> = map_option (tail_state s g p)
                      (find (\<lambda>e. e < length s \<and> s ! e = 58) (hostends db s p))"
  proof (cases "find (\<lambda>e. e < length s \<and> s ! e = 58) (hostends db s p)")
    case None
    then show ?thesis by (simp add: ne)
  next
    case (Some e)
    then have "e < length s \<and> s ! e = 58" by (auto dest: find_Some_P)
    from fst [OF this] Some show ?thesis by (simp add: ne)
  qed
  finally show ?thesis .
qed

subsection \<open>The match of the first pattern\<close>

lemma re_match_first:
  "re_match db r s = map_option (\<lambda>(b, a, g). (rev b, g)) (first (matches db r ([], s, [])))"
  by (simp add: re_match_def first_def split: list.splits)

lemma find_map_comp: "find Q (map f xs) = map_option f (find (Q \<circ> f) xs)"
  by (induction xs) simp_all

lemma at_0: "at s g 0 = ([], s, g)"
  by (simp add: at_def)

lemma after_ats_le: "p \<in> set (after_ats s 0 @ [0]) \<Longrightarrow> p \<le> length s \<and> p \<le> line_end s 0"
  using after_ats_nested(3,4) [of p s 0] by auto

lemma first_git:
  "first (matches db git_re ([], s, [])) =
     (case prefix_end db s of
        None \<Rightarrow> None
      | Some p \<Rightarrow> map_option (tail_state s [] p) (host_end db s p))"
proof -
  let ?Q = "\<lambda>x. matches db tail_re x \<noteq> []"
  have Q: "?Q (at s [] p) \<longleftrightarrow> host_end db s p \<noteq> None" if "p \<le> length s" for p
    using first_tail [OF that, of db "[]"]
    by (simp add: first_None [symmetric] host_end_def colon_def [abs_def])
  have "find ?Q (matches db (Rep 0 None user_re) (at s [] 0))
        = find ?Q (map (at s []) (after_ats s 0 @ [0]))"
    by (rule star_user_find) simp
  also have "\<dots> = map_option (at s []) (find (?Q \<circ> at s []) (after_ats s 0 @ [0]))"
    by (rule find_map_comp)
  also have "find (?Q \<circ> at s []) (after_ats s 0 @ [0]) = prefix_end db s"
    unfolding prefix_end_def
    by (rule find_cong [OF refl]) (use after_ats_le Q in auto)
  finally have f: "find ?Q (matches db (Rep 0 None user_re) (at s [] 0))
                   = map_option (at s []) (prefix_end db s)" .
  have "first (matches db git_re (at s [] 0))
        = (case find ?Q (matches db (Rep 0 None user_re) (at s [] 0)) of
             None \<Rightarrow> None | Some x \<Rightarrow> first (matches db tail_re x))"
    by (simp add: git_re_parts matches_Cat first_concat_map)
  also have "\<dots> = (case prefix_end db s of
        None \<Rightarrow> None
      | Some p \<Rightarrow> map_option (tail_state s [] p) (host_end db s p))"
  proof (cases "prefix_end db s")
    case None
    then show ?thesis by (simp add: f)
  next
    case (Some p)
    then have "p \<in> set (after_ats s 0 @ [0])"
      unfolding prefix_end_def by (auto dest: find_Some_P)
    then have "p \<le> length s" using after_ats_le by blast
    from first_tail [OF this, of db "[]"] Some show ?thesis
      by (simp add: f host_end_def colon_def [abs_def])
  qed
  finally show ?thesis by (simp add: at_0)
qed

lemma slice_nth: "q + i < e \<Longrightarrow> e \<le> length s \<Longrightarrow> drop q (take e s) ! i = s ! (q + i)"
  by simp

lemma slice_length: "e \<le> length s \<Longrightarrow> length (drop q (take e s)) = e - q"
  by simp

lemma slice_set:
  assumes "e \<le> length s"
  shows "c \<in> set (drop q (take e s)) \<longleftrightarrow> (\<exists>j. q \<le> j \<and> j < e \<and> c = s ! j)"
proof
  assume "c \<in> set (drop q (take e s))"
  then obtain i where i: "i < length (drop q (take e s))" "c = drop q (take e s) ! i"
    by (auto simp: in_set_conv_nth)
  then have "q + i < e" using assms by simp
  with i assms have "c = s ! (q + i)" by simp
  with \<open>q + i < e\<close> show "\<exists>j. q \<le> j \<and> j < e \<and> c = s ! j" by (intro exI [of _ "q + i"]) simp
next
  assume "\<exists>j. q \<le> j \<and> j < e \<and> c = s ! j"
  then obtain j where j: "q \<le> j" "j < e" "c = s ! j" by blast
  then have "j - q < length (drop q (take e s))" using assms by simp
  moreover have "drop q (take e s) ! (j - q) = s ! j" using j assms by simp
  ultimately show "c \<in> set (drop q (take e s))" using j(3) by (metis nth_mem)
qed

lemma slice_snoc: "q \<le> e \<Longrightarrow> e < length s \<Longrightarrow> drop q (take (Suc e) s) = drop q (take e s) @ [s ! e]"
  by (simp add: take_Suc_conv_app_nth)

lemma slice_cons: "p < e \<Longrightarrow> e \<le> length s \<Longrightarrow> drop p (take e s) = s ! p # drop (Suc p) (take e s)"
  using Cons_nth_drop_Suc [of p "take e s"] by simp

lemma run_ge:
  assumes "p \<le> e" "e \<le> length s" "\<And>j. p \<le> j \<Longrightarrow> j < e \<Longrightarrow> P (s ! j)"
  shows "e \<le> p + run P (drop p s)"
proof (rule ccontr)
  assume "\<not> e \<le> p + run P (drop p s)"
  then have l: "p + run P (drop p s) < e" by simp
  then have "p + run P (drop p s) < length s" using assms(2) by simp
  from run_stop [OF this] assms(3) [of "p + run P (drop p s)"] l show False by simp
qed

lemma host_token_body: "host_token db h \<longleftrightarrow> host_body db h \<or> (\<exists>h'. h = 91 # h' \<and> host_body db h')"
proof
  assume "host_token db h"
  then obtain ob core cb where c: "h = ob @ core @ cb" "ob = [] \<or> ob = [91]" "core \<noteq> []"
    "\<forall>c \<in> set core. host_char db c" "cb = [] \<or> cb = [93]"
    unfolding host_token_def by blast
  then have b: "host_body db (core @ cb)" unfolding host_body_def by blast
  from c(2) show "host_body db h \<or> (\<exists>h'. h = 91 # h' \<and> host_body db h')"
  proof
    assume "ob = []"
    with b c(1) show ?thesis by simp
  next
    assume "ob = [91]"
    with b c(1) show ?thesis by simp
  qed
next
  assume "host_body db h \<or> (\<exists>h'. h = 91 # h' \<and> host_body db h')"
  then show "host_token db h"
  proof
    assume "host_body db h"
    then obtain core cb where "h = [] @ core @ cb" "core \<noteq> []"
      "\<forall>c \<in> set core. host_char db c" "cb = [] \<or> cb = [93]"
      unfolding host_body_def by auto
    then show ?thesis unfolding host_token_def by blast
  next
    assume "\<exists>h'. h = 91 # h' \<and> host_body db h'"
    then obtain core cb where "h = [91] @ core @ cb" "core \<noteq> []"
      "\<forall>c \<in> set core. host_char db c" "cb = [] \<or> cb = [93]"
      unfolding host_body_def by auto
    then show ?thesis unfolding host_token_def by blast
  qed
qed

lemma host_body_hd: "host_body db h \<Longrightarrow> h \<noteq> [] \<and> host_char db (hd h)"
  unfolding host_body_def by (auto simp: hd_append)

lemma ends_mem:
  assumes q: "q \<le> length s"
  shows "e \<in> set (ends db s q) \<longleftrightarrow> q \<le> e \<and> e \<le> length s \<and> host_body db (drop q (take e s))"
proof -
  let ?E = "q + run (host_char db) (drop q s)"
  have E: "?E \<le> length s" using run_le [of q "host_char db" s] q by simp
  have inside: "host_char db c" if "c \<in> set (drop q (take e s))" "e \<le> ?E" for c e
  proof -
    from that E obtain j where "q \<le> j" "j < e" "c = s ! j" by (auto simp: slice_set)
    then show ?thesis using run_inside [of q j "host_char db" s] that(2) by simp
  qed
  show ?thesis
  proof
    assume "e \<in> set (ends db s q)"
    then consider (closed) "e = Suc ?E" "q < ?E" "?E < length s" "s ! ?E = 93"
      | (plain) "Suc q \<le> e" "e \<le> ?E"
      by (auto simp: ends_def Let_def split: if_splits)
    then show "q \<le> e \<and> e \<le> length s \<and> host_body db (drop q (take e s))"
    proof cases
      case closed
      let ?core = "drop q (take ?E s)"
      have "drop q (take e s) = ?core @ [93]"
        using closed slice_snoc [of q ?E s] by simp
      moreover have "?core \<noteq> []" using closed by simp
      moreover have "\<forall>c \<in> set ?core. host_char db c" using inside [of _ ?E] by simp
      ultimately have "host_body db (drop q (take e s))"
        unfolding host_body_def by blast
      then show ?thesis using closed by simp
    next
      case plain
      let ?core = "drop q (take e s)"
      have "?core \<noteq> []" using plain E by simp
      moreover have "\<forall>c \<in> set ?core. host_char db c" using inside [of _ e] plain by simp
      ultimately have "host_body db ?core"
        unfolding host_body_def by (intro exI [of _ ?core] exI [of _ "[]"]) simp
      then show ?thesis using plain E by simp
    qed
  next
    assume a: "q \<le> e \<and> e \<le> length s \<and> host_body db (drop q (take e s))"
    then obtain core cb where c: "drop q (take e s) = core @ cb" "core \<noteq> []"
      "\<forall>c \<in> set core. host_char db c" "cb = [] \<or> cb = [93]"
      unfolding host_body_def by blast
    from c(1) a have len: "e - q = length core + length cb"
      using slice_length [of e s q] by simp
    have nth: "s ! j = (core @ cb) ! (j - q)" if "q \<le> j" "j < e" for j
      using slice_nth [of q "j - q" e s] that a c(1) by simp
    from c(4) show "e \<in> set (ends db s q)"
    proof
      assume cb: "cb = []"
      have "host_char db (s ! j)" if "q \<le> j" "j < e" for j
      proof -
        have "j - q < length core" using that len cb by simp
        then show ?thesis using nth [OF that] c(3) cb by simp
      qed
      with a have "e \<le> ?E" by (intro run_ge) simp_all
      moreover have "q < e" using len c(2) cb by (cases core) simp_all
      ultimately show ?thesis by (auto simp: ends_def Let_def)
    next
      assume cb: "cb = [93]"
      from len cb c(2) have e: "e = Suc (q + length core)" "0 < length core" by simp_all
      let ?e = "q + length core"
      have "host_char db (s ! j)" if "q \<le> j" "j < ?e" for j
      proof -
        have "j - q < length core" using that by simp
        moreover have "j < e" using that e by simp
        ultimately show ?thesis using nth [OF that(1)] c(3) by (simp add: nth_append)
      qed
      with a e have le: "?e \<le> ?E" by (intro run_ge) simp_all
      have last: "s ! ?e = 93" using nth [of ?e] e cb by (simp add: nth_append)
      have "\<not> ?e < ?E"
      proof
        assume "?e < ?E"
        from run_inside [OF _ this] last show False by simp
      qed
      with le have "?e = ?E" by simp
      then show ?thesis using e last a by (simp add: ends_def Let_def)
    qed
  qed
qed

lemma hostends_mem:
  assumes p: "p \<le> length s"
  shows "e \<in> set (hostends db s p) \<longleftrightarrow> p \<le> e \<and> e \<le> length s \<and> host_token db (drop p (take e s))"
proof (cases "p < length s \<and> s ! p = 91")
  case True
  then have h: "hostends db s p = ends db s (Suc p)" by (simp add: hostends_def)
  have sp: "Suc p \<le> length s" using True by simp
  show ?thesis
  proof
    assume "e \<in> set (hostends db s p)"
    then have b: "Suc p \<le> e" "e \<le> length s" "host_body db (drop (Suc p) (take e s))"
      using ends_mem [OF sp, of e db] h by simp_all
    then have "drop p (take e s) = 91 # drop (Suc p) (take e s)"
      using slice_cons [of p e s] True by simp
    with b show "p \<le> e \<and> e \<le> length s \<and> host_token db (drop p (take e s))"
      by (auto simp: host_token_body)
  next
    assume a: "p \<le> e \<and> e \<le> length s \<and> host_token db (drop p (take e s))"
    then have ne: "drop p (take e s) \<noteq> []"
      by (auto simp: host_token_body dest: host_body_hd)
    then have pe: "p < e" using a by simp
    then have c: "drop p (take e s) = 91 # drop (Suc p) (take e s)"
      using slice_cons [of p e s] True a by simp
    have "\<not> host_body db (drop p (take e s))"
      using host_body_hd [of db "drop p (take e s)"] c by auto
    with a c have "host_body db (drop (Suc p) (take e s))"
      by (auto simp: host_token_body)
    then show "e \<in> set (hostends db s p)"
      using ends_mem [OF sp, of e db] h pe a by simp
  qed
next
  case False
  then have h: "hostends db s p = ends db s p" by (auto simp: hostends_def)
  show ?thesis
  proof
    assume "e \<in> set (hostends db s p)"
    then show "p \<le> e \<and> e \<le> length s \<and> host_token db (drop p (take e s))"
      using ends_mem [OF p, of e db] h by (auto simp: host_token_body)
  next
    assume a: "p \<le> e \<and> e \<le> length s \<and> host_token db (drop p (take e s))"
    have "\<not> (\<exists>h'. drop p (take e s) = 91 # h')"
    proof
      assume "\<exists>h'. drop p (take e s) = 91 # h'"
      then obtain h' where h': "drop p (take e s) = 91 # h'" by blast
      then have "p < e" using a by (cases "p < e") simp_all
      with slice_cons [of p e s] a h' have "s ! p = 91" "p < length s" by simp_all
      with False show False by simp
    qed
    with a have "host_body db (drop p (take e s))" by (auto simp: host_token_body)
    then show "e \<in> set (hostends db s p)"
      using ends_mem [OF p, of e db] h a by simp
  qed
qed

lemma ends_sorted: "sorted_wrt (>) (ends db s q)"
  by (auto simp: ends_def Let_def sorted_wrt_append sorted_wrt_rev)

lemma hostends_sorted: "sorted_wrt (>) (hostends db s p)"
  by (simp add: hostends_def ends_sorted)

lemma prefixes_sorted: "sorted_wrt (>) (after_ats s 0 @ [0])"
  using after_ats_nested(2) [of _ s 0] by (auto simp: sorted_wrt_append after_ats_sorted)

lemma find_sorted_max:
  "sorted_wrt (>) xs \<Longrightarrow> find Q xs = Some x \<Longrightarrow> y \<in> set xs \<Longrightarrow> Q y \<Longrightarrow> y \<le> (x::nat)"
  by (induction xs) (auto split: if_splits dest: find_Some_P)

lemma line_of_take: "line_of s = take (line_end s 0) s"
  using takeWhile_eq_take [of "\<lambda>c. c \<noteq> 10" s] by (simp add: line_of_def line_end_def run_def)

lemma line_end_0_le: "line_end s 0 \<le> length s"
  by (rule line_end_le) simp

lemma host_token_no_newline: "host_token db h \<Longrightarrow> 10 \<notin> set h"
proof
  assume "host_token db h" "10 \<in> set h"
  then obtain ob core cb where c: "h = ob @ core @ cb" "ob = [] \<or> ob = [91]"
    "\<forall>c \<in> set core. host_char db c" "cb = [] \<or> cb = [93]"
    unfolding host_token_def by blast
  with \<open>10 \<in> set h\<close> have "10 \<in> set core" by auto
  with c(3) have "host_char db 10" by blast
  then show False by simp
qed

lemma prefix_mem:
  assumes "p \<le> line_end s 0"
  shows "p \<in> set (after_ats s 0 @ [0]) \<longleftrightarrow> user_prefix (take p s)"
proof -
  have pl: "p \<le> length s" using assms line_end_0_le [of s] by simp
  show ?thesis
  proof (cases p)
    case 0
    then show ?thesis by (simp add: user_prefix_def)
  next
    case (Suc j)
    then have j: "j < length s" "j < line_end s 0" using pl assms by simp_all
    then have "take p s \<noteq> []" "last (take p s) = s ! j" "length (take p s) = Suc j"
      using Suc by (auto simp: take_Suc_conv_app_nth)
    then have "user_prefix (take p s) \<longleftrightarrow> 0 < j \<and> s ! j = 64"
      by (auto simp: user_prefix_def)
    moreover have "p \<in> set (after_ats s 0 @ [0]) \<longleftrightarrow> 0 < j \<and> s ! j = 64"
      using Suc j by (auto simp: after_ats_mem)
    ultimately show ?thesis by simp
  qed
qed

lemma slice_split3:
  assumes "p \<le> e" "e < length t"
  shows "t = take p t @ drop p (take e t) @ t ! e # drop (Suc e) t"
proof -
  have a: "take p t @ drop p (take e t) = take e t"
    using append_take_drop_id [of p "take e t"] assms(1) by (simp add: min_def)
  have b: "t ! e # drop (Suc e) t = drop e t" using assms(2) by (simp add: Cons_nth_drop_Suc)
  have "take e t @ drop e t = (take p t @ drop p (take e t)) @ (t ! e # drop (Suc e) t)"
    by (simp only: a b)
  then show ?thesis by simp
qed

lemma split_at_line:
  assumes "split_at db s p e"
  shows "p \<le> e" "Suc e \<le> line_end s 0" "p \<le> line_end s 0"
proof -
  from assms have p: "p \<le> length s" "p \<le> line_end s 0"
    using after_ats_le [of p s] by (simp_all add: split_at_def)
  then show "p \<le> line_end s 0" by simp
  from assms p have e: "p \<le> e" "e < length s" "s ! e = 58" "host_token db (drop p (take e s))"
    using hostends_mem [of p s e db] by (simp_all add: split_at_def colon_def)
  then show "p \<le> e" by simp
  have "s ! j \<noteq> 10" if "p \<le> j" "j < Suc e" for j
  proof (cases "j = e")
    case True
    then show ?thesis using e by simp
  next
    case False
    then have "s ! j \<in> set (drop p (take e s))" using that e by (auto simp: slice_set)
    with host_token_no_newline [OF e(4)] show ?thesis by metis
  qed
  with e have "Suc e \<le> p + run (\<lambda>c. c \<noteq> 10) (drop p s)" by (intro run_ge) simp_all
  then have "Suc e \<le> line_end s p" by (simp add: line_end_def)
  also have "line_end s p = line_end s 0" using p by (intro line_end_shift) simp_all
  finally show "Suc e \<le> line_end s 0" .
qed

lemma split_at_git_split:
  assumes "split_at db s p e"
  shows "git_split db s (take p s) (drop p (take e s)) (drop (Suc e) (take (line_end s 0) s))"
proof -
  note l = split_at_line [OF assms]
  let ?t = "take (line_end s 0) s"
  have lt: "length ?t = line_end s 0" using line_end_0_le [of s] by simp
  from assms have p: "p \<le> length s" using after_ats_le [of p s] by (simp add: split_at_def)
  from assms p have e: "s ! e = 58" "host_token db (drop p (take e s))"
    using hostends_mem [of p s e db] by (simp_all add: split_at_def colon_def)
  have "?t = take p ?t @ drop p (take e ?t) @ ?t ! e # drop (Suc e) ?t"
    using l lt by (intro slice_split3) simp_all
  moreover have "take p ?t = take p s" "take e ?t = take e s" "?t ! e = s ! e"
    using l by (simp_all add: min_def)
  ultimately have "line_of s = take p s @ drop p (take e s) @ 58 # drop (Suc e) ?t"
    using e(1) by (simp add: line_of_take)
  moreover have "user_prefix (take p s)"
    using assms prefix_mem [OF l(3)] by (simp add: split_at_def)
  ultimately show ?thesis using e(2) by (simp add: git_split_def)
qed

lemma git_split_split_at:
  assumes "git_split db s pre h path"
  shows "split_at db s (length pre) (length pre + length h)"
    and "pre = take (length pre) s"
    and "h = drop (length pre) (take (length pre + length h) s)"
    and "path = drop (Suc (length pre + length h)) (take (line_end s 0) s)"
proof -
  let ?t = "take (line_end s 0) s"
  let ?p = "length pre" and ?e = "length pre + length h"
  from assms have t: "?t = pre @ h @ 58 # path" "user_prefix pre" "host_token db h"
    by (simp_all add: git_split_def line_of_take)
  have lt: "length ?t = line_end s 0" using line_end_0_le [of s] by simp
  from arg_cong [OF t(1), of length] lt have e: "Suc ?e \<le> line_end s 0" by simp
  then have el: "?e < length s" using line_end_0_le [of s] by simp
  have "take ?p ?t = pre" by (simp add: t(1))
  then show pre: "pre = take ?p s" using e by (simp add: min_def)
  have "take ?e ?t = pre @ h" by (simp add: t(1))
  then have te: "take ?e s = pre @ h" using e by (simp add: min_def)
  then show h: "h = drop ?p (take ?e s)" by simp
  show "path = drop (Suc ?e) ?t" by (simp add: t(1))
  have "?t ! ?e = 58" by (simp add: t(1) nth_append)
  then have c: "colon s ?e" using e el by (simp add: colon_def)
  have "?p \<in> set (after_ats s 0 @ [0])"
    using prefix_mem [of ?p s] t(2) pre e by simp
  moreover have "?e \<in> set (hostends db s ?p)"
    using hostends_mem [of ?p s ?e db] t(3) h el by simp
  ultimately show "split_at db s ?p ?e" using c by (simp add: split_at_def)
qed

lemma git_first_Some:
  assumes "first (matches db git_re ([], s, [])) = Some st"
  shows "\<exists>p e. split_at db s p e \<and> st = tail_state s [] p e
           \<and> (\<forall>p' e'. split_at db s p' e' \<longrightarrow> p' < p \<or> (p' = p \<and> e' \<le> e))"
proof -
  from assms obtain p e where pe: "prefix_end db s = Some p" "host_end db s p = Some e"
    "st = tail_state s [] p e"
    by (auto simp: first_git split: option.splits)
  from pe(1) have p: "p \<in> set (after_ats s 0 @ [0])"
    unfolding prefix_end_def by (auto dest: find_Some_P)
  from pe(2) have e: "e \<in> set (hostends db s p)" "colon s e"
    unfolding host_end_def by (auto dest: find_Some_P)
  have "p' < p \<or> (p' = p \<and> e' \<le> e)" if "split_at db s p' e'" for p' e'
  proof -
    from that have s: "p' \<in> set (after_ats s 0 @ [0])" "e' \<in> set (hostends db s p')" "colon s e'"
      by (simp_all add: split_at_def)
    then have "host_end db s p' \<noteq> None" by (auto simp: host_end_def find_None_iff)
    from find_sorted_max [OF prefixes_sorted pe(1) [unfolded prefix_end_def] s(1) this]
    have "p' \<le> p" .
    moreover have "e' \<le> e" if "p' = p"
      using find_sorted_max [OF hostends_sorted pe(2) [unfolded host_end_def], of e'] s that
      by simp
    ultimately show ?thesis by (cases "p' = p") simp_all
  qed
  with p e pe(3) show ?thesis unfolding split_at_def by blast
qed

lemma git_first_None:
  assumes "first (matches db git_re ([], s, [])) = None"
  shows "\<not> split_at db s p e"
proof
  assume "split_at db s p e"
  then have s: "p \<in> set (after_ats s 0 @ [0])" "e \<in> set (hostends db s p)" "colon s e"
    by (simp_all add: split_at_def)
  then have h: "host_end db s p \<noteq> None" by (auto simp: host_end_def find_None_iff)
  with s(1) have "prefix_end db s \<noteq> None" by (auto simp: prefix_end_def find_None_iff)
  then obtain p' where p': "prefix_end db s = Some p'" by blast
  then have "host_end db s p' \<noteq> None" unfolding prefix_end_def by (auto dest: find_Some_P)
  with p' assms show False by (auto simp: first_git)
qed

lemma git_groups_unique:
  assumes "git_groups db s h path" "git_groups db s h' path'"
  shows "h = h' \<and> path = path'"
proof -
  from assms obtain pre pre' where
    a: "git_split db s pre h path"
       "\<And>x y z. git_split db s x y z \<Longrightarrow> length x < length pre \<or> (length x = length pre \<and> length y \<le> length h)"
    and b: "git_split db s pre' h' path'"
       "\<And>x y z. git_split db s x y z \<Longrightarrow> length x < length pre' \<or> (length x = length pre' \<and> length y \<le> length h')"
    unfolding git_groups_def by blast
  from a(2) [OF b(1)] b(2) [OF a(1)] have l: "length pre = length pre'" "length h = length h'"
    by auto
  from a(1) b(1) have "pre @ h @ 58 # path = pre' @ h' @ 58 # path'" by (simp add: git_split_def)
  with l show ?thesis by simp
qed

theorem git_match_iff:
  "re_match db git_re s = Some (w, g) \<longleftrightarrow>
     (\<exists>h path. git_groups db s h path \<and> w = line_of s \<and> g = [(2, path), (Suc 0, h)])"
proof -
  have fwd: "\<exists>h path. git_groups db s h path \<and> w = line_of s \<and> g = [(2, path), (Suc 0, h)]"
    if "re_match db git_re s = Some (w, g)" for w g
  proof -
    from that obtain b a where "first (matches db git_re ([], s, [])) = Some (b, a, g)" "w = rev b"
      by (auto simp: re_match_first)
    with git_first_Some [of db s "(b, a, g)"] obtain p e where
      pe: "split_at db s p e" "(b, a, g) = tail_state s [] p e"
      "\<And>p' e'. split_at db s p' e' \<Longrightarrow> p' < p \<or> (p' = p \<and> e' \<le> e)" and w: "w = rev b"
      by blast
    note l = split_at_line [OF pe(1)]
    have le: "line_end s (Suc e) = line_end s 0" using l by (intro line_end_shift) simp_all
    let ?h = "drop p (take e s)" and ?path = "drop (Suc e) (take (line_end s 0) s)"
    from pe(2) w have "w = line_of s" "g = [(2, ?path), (Suc 0, ?h)]"
      by (simp_all add: tail_state_def at_def le line_of_take)
    moreover have "git_groups db s ?h ?path"
      unfolding git_groups_def
    proof (intro exI [of _ "take p s"] conjI allI impI)
      show "git_split db s (take p s) ?h ?path" by (rule split_at_git_split [OF pe(1)])
    next
      fix pre' h' path'
      assume g: "git_split db s pre' h' path'"
      have lp: "length (take p s) = p" "length ?h = e - p"
        using l line_end_0_le [of s] by simp_all
      from pe(3) [OF git_split_split_at(1) [OF g]]
      show "length pre' < length (take p s) \<or> (length pre' = length (take p s) \<and> length h' \<le> length ?h)"
        unfolding lp by auto
    qed
    ultimately show ?thesis by blast
  qed
  show ?thesis
  proof
    assume "re_match db git_re s = Some (w, g)"
    then show "\<exists>h path. git_groups db s h path \<and> w = line_of s \<and> g = [(2, path), (Suc 0, h)]"
      by (rule fwd)
  next
    assume "\<exists>h path. git_groups db s h path \<and> w = line_of s \<and> g = [(2, path), (Suc 0, h)]"
    then obtain h path where hp: "git_groups db s h path" "w = line_of s" "g = [(2, path), (Suc 0, h)]"
      by blast
    then obtain pre where "git_split db s pre h path" unfolding git_groups_def by blast
    from git_split_split_at(1) [OF this] git_first_None [of db s]
    have "first (matches db git_re ([], s, [])) \<noteq> None" by blast
    then obtain w' g' where m: "re_match db git_re s = Some (w', g')"
      by (auto simp: re_match_first)
    from fwd [OF m] obtain h' path' where
      "git_groups db s h' path'" "w' = line_of s" "g' = [(2, path'), (Suc 0, h')]" by blast
    with git_groups_unique [OF hp(1) this(1)] hp m show "re_match db git_re s = Some (w, g)"
      by simp
  qed
qed

lemma git_match_None_iff:
  "re_match db git_re s = None \<longleftrightarrow> \<not> (\<exists>pre h path. git_split db s pre h path)"
proof
  assume "re_match db git_re s = None"
  then have "first (matches db git_re ([], s, [])) = None" by (simp add: re_match_first)
  from git_first_None [OF this] git_split_split_at(1) [of db s]
  show "\<not> (\<exists>pre h path. git_split db s pre h path)" by blast
next
  assume n: "\<not> (\<exists>pre h path. git_split db s pre h path)"
  show "re_match db git_re s = None"
  proof (cases "re_match db git_re s")
    case None
    then show ?thesis .
  next
    case (Some r)
    then obtain w g where "re_match db git_re s = Some (w, g)" by (cases r) simp
    then obtain h path where "git_groups db s h path" unfolding git_match_iff by blast
    with n show ?thesis unfolding git_groups_def by blast
  qed
qed

subsection \<open>The domain-name pattern\<close>

lemma fqdn_re_parts:
  "fqdn_re = Cat (Ahead look_re) (Grp (Suc 0) (Cat Bol (Cat (Rep (Suc 0) None label_re) tld_re)))"
  by (simp add: fqdn_re_def look_re_def label_re_def label_body_def tld_re_def lab_items_def
      let_items_def Plus_def ord_def)

lemma matches_NotBehind_at:
  assumes "k \<le> length s"
  shows "matches db (NotBehind d) (at s g k) = (if 0 < k \<and> s ! (k - 1) = d then [] else [at s g k])"
proof (cases k)
  case 0
  then show ?thesis by (simp add: matches.simps(10) at_def)
next
  case (Suc j)
  then have "take k s = take j s @ [s ! j]" using assms by (simp add: take_Suc_conv_app_nth)
  then show ?thesis using Suc by (simp add: matches.simps(10) at_def)
qed

lemma matches_Bol_0: "matches db Bol (at s g 0) = [at s g 0]"
  by (simp add: matches.simps(11) at_def)

lemma matches_Eol_at:
  assumes "10 \<notin> set s"
  shows "matches db Eol (at s g k) = (if length s \<le> k then [at s g k] else [])"
proof -
  have "drop k s \<noteq> [10]"
  proof
    assume "drop k s = [10]"
    then have "10 \<in> set (drop k s)" by simp
    then show False using assms by (auto dest: in_set_dropD)
  qed
  then show ?thesis by (simp add: matches.simps(12) at_def)
qed

lemma lab_step: "matches db (Set lab_items) st = step label_char st"
  by (simp add: matches_Set lab_items_def label_char_def [abs_def] disj_ac)

lemma let_step: "matches db (Set let_items) st = step letter st"
  by (simp add: matches_Set let_items_def letter_def [abs_def])

lemma matches_label_body:
  assumes "k \<le> length s"
  shows "matches db label_body (at s g k) = map (at s g) (label_ends s k)"
proof -
  let ?js = "rev [Suc k ..< Suc (k + lim (Some 63) (run label_char (drop k s)))]"
  let ?check = "\<lambda>j. s ! (j - 1) \<noteq> 45 \<and> j < length s \<and> s ! j = 46"
  let ?tail = "Cat (NotBehind 45) (Chr 46)"
  have lab: "matches db (Rep (Suc 0) (Some 63) (Set lab_items)) (at s g k) = map (at s g) ?js"
    using rep_step [where r = "Set lab_items" and P = label_char and m = "Suc 0"
        and n = "Some 63" and db = db and s = s and g = g and k = k, OF lab_step]
    by simp
  have jr: "0 < j \<and> j \<le> length s" if "j \<in> set ?js" for j
  proof -
    have "lim (Some 63) (run label_char (drop k s)) \<le> run label_char (drop k s)"
      by (simp add: lim_def)
    then show ?thesis using that run_le [of k label_char s] assms by auto
  qed
  have tl: "matches db ?tail (at s g j) = (if ?check j then [at s g (Suc j)] else [])"
    if "j \<in> set ?js" for j
    using jr [OF that] by (simp add: matches_Cat matches_NotBehind_at matches_Chr step_at)
  have "concat (map (matches db ?tail) (map (at s g) ?js))
        = concat (map (\<lambda>j. if ?check j then [at s g (Suc j)] else []) ?js)"
    unfolding map_map comp_def
    by (rule arg_cong [where f = concat], rule map_cong [OF refl]) (use tl in simp)
  also have "\<dots> = map (\<lambda>j. at s g (Suc j)) (filter ?check ?js)"
    by (rule concat_map_if)
  finally have body: "matches db (Cat (Rep (Suc 0) (Some 63) (Set lab_items)) ?tail) (at s g k)
                      = map (at s g) (map Suc (filter ?check ?js))"
    by (simp add: matches_Cat [of db "Rep (Suc 0) (Some 63) (Set lab_items)"] lab comp_def)
  show ?thesis
  proof (cases "k < length s \<and> s ! k = 45")
    case True
    then show ?thesis
      by (simp add: label_body_def matches_Cat [of db "NotAhead (Chr 45)"] matches.simps(9)
          matches_Chr step_at label_ends_def)
  next
    case False
    then have na: "matches db (NotAhead (Chr 45)) (at s g k) = [at s g k]"
      by (auto simp: matches.simps(9) matches_Chr step_at)
    have le: "label_ends s k = map Suc (filter ?check ?js)"
      by (simp only: label_ends_def False if_False)
    show ?thesis
      unfolding label_body_def matches_Cat [of db "NotAhead (Chr 45)"] na le
      by (simp only: list.map concat.simps append_Nil2 body)
  qed
qed

lemma label_ends_range:
  assumes "k \<le> length s" "e \<in> set (label_ends s k)"
  shows "k < e \<and> e \<le> length s"
  using assms by (auto simp: label_ends_def split: if_splits)

lemma matches_label:
  assumes "k \<le> length s"
  shows "matches db label_re (at s g k)
         = map (\<lambda>e. at s ((2, drop k (take e s)) # g) e) (label_ends s k)"
  unfolding label_re_def
  by (rule matches_grp_at [OF matches_label_body [OF assms]])
     (use label_ends_range [OF assms] in force)

lemma label_ends_mem:
  assumes k: "k \<le> length s"
  shows "e \<in> set (label_ends s k) \<longleftrightarrow>
           (\<exists>l. label l \<and> e = Suc (k + length l) \<and> e \<le> length s \<and> drop k (take e s) = l @ [46])"
proof
  let ?r = "run label_char (drop k s)"
  assume "e \<in> set (label_ends s k)"
  then obtain j where j: "e = Suc j" "k < j" "j \<le> k + lim (Some 63) ?r" "s ! (j - 1) \<noteq> 45"
    "j < length s" "s ! j = 46" "\<not> (k < length s \<and> s ! k = 45)"
    by (auto simp: label_ends_def split: if_splits)
  let ?l = "drop k (take j s)"
  have jr: "j \<le> k + ?r" "j - k \<le> 63" using j(3) by (simp_all add: lim_def)
  have len: "length ?l = j - k" using j by simp
  have "label_char c" if "c \<in> set ?l" for c
  proof -
    from that j obtain i where "k \<le> i" "i < j" "c = s ! i" by (auto simp: slice_set)
    then show ?thesis using run_inside [of k i label_char s] jr by simp
  qed
  moreover have "hd ?l = s ! k" using j by (simp add: hd_drop_conv_nth)
  moreover have "last ?l = s ! (j - 1)"
  proof -
    have "?l \<noteq> []" using j by simp
    then have "last ?l = ?l ! (length ?l - 1)" by (rule last_conv_nth)
    also have "\<dots> = s ! (k + (j - k - 1))" using j len by simp
    finally show ?thesis using j by simp
  qed
  ultimately have "label ?l" using j jr len by (simp add: label_def)
  moreover have "drop k (take e s) = ?l @ [46]"
    using slice_snoc [of k j s] j by simp
  ultimately show "\<exists>l. label l \<and> e = Suc (k + length l) \<and> e \<le> length s \<and> drop k (take e s) = l @ [46]"
    using j len by (intro exI [of _ ?l]) simp
next
  let ?r = "run label_char (drop k s)"
  assume "\<exists>l. label l \<and> e = Suc (k + length l) \<and> e \<le> length s \<and> drop k (take e s) = l @ [46]"
  then obtain l where l: "label l" "e = Suc (k + length l)" "e \<le> length s"
    "drop k (take e s) = l @ [46]" by blast
  let ?j = "k + length l"
  have nth: "s ! i = (l @ [46]) ! (i - k)" if "k \<le> i" "i < e" for i
  proof -
    have "s ! i = drop k (take e s) ! (i - k)" using that l(3) by simp
    then show ?thesis unfolding l(4) .
  qed
  from l(1) have ll: "1 \<le> length l" "length l \<le> 63" "\<forall>c \<in> set l. label_char c"
    "hd l \<noteq> 45" "last l \<noteq> 45" by (simp_all add: label_def)
  then have ne: "l \<noteq> []" by auto
  have "label_char (s ! i)" if "k \<le> i" "i < ?j" for i
  proof -
    have "i - k < length l" using that by simp
    then show ?thesis using nth [of i] that l(2) ll(3) by (simp add: nth_append)
  qed
  then have "?j \<le> k + ?r" using l by (intro run_ge) simp_all
  then have a: "?j \<le> k + lim (Some 63) ?r" using ll(2) by (simp add: lim_def)
  have b: "s ! ?j = 46" using nth [of ?j] l(2) by (simp add: nth_append)
  have c: "s ! k = hd l" using nth [of k] l(2) ne by (simp add: nth_append hd_conv_nth)
  have d: "s ! (?j - 1) = last l"
  proof -
    have "s ! (?j - 1) = (l @ [46]) ! (length l - 1)" using nth [of "?j - 1"] l(2) ll(1) by simp
    then show ?thesis using ne by (simp add: nth_append last_conv_nth)
  qed
  let ?js = "rev [Suc k ..< Suc (k + lim (Some 63) ?r)]"
  let ?check = "\<lambda>j. s ! (j - 1) \<noteq> 45 \<and> j < length s \<and> s ! j = 46"
  have m: "?j \<in> set ?js" unfolding set_rev set_upt using a ll(1) by auto
  have c2: "?check ?j" using b d ll l by simp
  have f: "?j \<in> set (filter ?check ?js)" using m c2 unfolding set_filter by blast
  have nb: "\<not> (k < length s \<and> s ! k = 45)" using c ll(4) by simp
  have le: "label_ends s k = map Suc (filter ?check ?js)"
    by (simp only: label_ends_def nb if_False)
  show "e \<in> set (label_ends s k)"
    unfolding le set_map l(2) using f by (rule imageI)
qed

lemma ok_Cat:
  "matches db (Cat r1 r2) st \<noteq> [] \<longleftrightarrow> (\<exists>x \<in> set (matches db r1 st). matches db r2 x \<noteq> [])"
  by (auto simp: matches_Cat)

lemma set_Rep_None:
  "set (matches db (Rep m None r) st) =
     (\<Union>x \<in> {x \<in> set (matches db r st). remaining x < remaining st}.
        set (matches db (Rep (m - 1) None r) x))
     \<union> (if m = 0 then {st} else {})"
  by (subst matches_Rep) auto

lemma run_all: "run P a = length a \<longleftrightarrow> (\<forall>c \<in> set a. P c)"
proof
  assume "run P a = length a"
  then have "takeWhile P a = a" using takeWhile_eq_take [of P a] by (simp add: run_def)
  then show "\<forall>c \<in> set a. P c" by (simp add: takeWhile_eq_all_conv)
next
  assume "\<forall>c \<in> set a. P c"
  then have "takeWhile P a = a" by (simp add: takeWhile_eq_all_conv)
  then show "run P a = length a" unfolding run_def by (rule arg_cong)
qed

lemma run_le_length: "run P a \<le> length a"
  by (simp add: run_def length_takeWhile_le)

lemma ok_bounded_line:
  assumes nl: "10 \<notin> set s" and k: "k \<le> length s"
    and r: "\<And>st. matches db r st = step P st"
  shows "matches db (Cat (Rep m (Some n) r) Eol) (at s g k) \<noteq> [] \<longleftrightarrow>
           m \<le> length (drop k s) \<and> length (drop k s) \<le> n \<and> (\<forall>c \<in> set (drop k s). P c)"
proof -
  let ?r = "run P (drop k s)"
  have rl: "?r \<le> length s - k" using run_le_length [of P "drop k s"] by simp
  have eol: "(\<exists>x \<in> set (map (at s g) js). matches db Eol x \<noteq> []) \<longleftrightarrow> (\<exists>j \<in> set js. length s \<le> j)"
    for js
    by (simp add: matches_Eol_at [OF nl])
  have "matches db (Cat (Rep m (Some n) r) Eol) (at s g k) \<noteq> [] \<longleftrightarrow>
          (\<exists>j \<in> set (rev [k + m ..< Suc (k + lim (Some n) ?r)]). length s \<le> j)"
    unfolding ok_Cat rep_step [of db r P, OF r] by (rule eol)
  also have "\<dots> \<longleftrightarrow> k + m \<le> length s \<and> length s \<le> k + min n ?r"
    using rl k by (auto simp: lim_def)
  also have "\<dots> \<longleftrightarrow> m \<le> length s - k \<and> length s - k \<le> n \<and> ?r = length s - k"
    using rl k by auto
  also have "?r = length s - k \<longleftrightarrow> (\<forall>c \<in> set (drop k s). P c)"
    using run_all [of P "drop k s"] by simp
  finally show ?thesis by simp
qed

lemma ok_tld:
  assumes "10 \<notin> set s" "k \<le> length s"
  shows "matches db tld_re (at s g k) \<noteq> [] \<longleftrightarrow> tld (drop k s)"
  unfolding tld_re_def tld_def
  by (rule ok_bounded_line [OF assms let_step])

lemma ok_look:
  assumes "10 \<notin> set s"
  shows "matches db look_re (at s g 0) \<noteq> [] \<longleftrightarrow> 4 \<le> length s \<and> length s \<le> 253"
proof -
  have "matches db (Cat (Rep 4 (Some 253) Any) Eol) (at s g 0) \<noteq> [] \<longleftrightarrow>
          4 \<le> length (drop 0 s) \<and> length (drop 0 s) \<le> 253 \<and> (\<forall>c \<in> set (drop 0 s). c \<noteq> 10)"
    by (rule ok_bounded_line [OF assms]) (simp_all add: matches_Any)
  then show ?thesis using assms
    by (auto simp: look_re_def ok_Cat [of db Bol] matches_Bol_0)
qed

lemma dotted_Nil: "dotted [] t = t"
  by (simp add: dotted_def)

lemma dotted_Cons: "dotted (l # ls) t = l @ 46 # dotted ls t"
  by (simp add: dotted_def)

lemma drop_slice: "k \<le> e \<Longrightarrow> drop k s = drop k (take e s) @ drop e s"
proof -
  assume "k \<le> e"
  have "drop k s = drop k (take e s @ drop e s)" by simp
  also have "\<dots> = drop k (take e s) @ drop (k - length (take e s)) (drop e s)"
    by (rule drop_append)
  also have "drop (k - length (take e s)) (drop e s) = drop e s"
  proof (cases "e \<le> length s")
    case True
    then show ?thesis using \<open>k \<le> e\<close> by simp
  next
    case False
    then show ?thesis by simp
  qed
  finally show ?thesis .
qed

lemma fq_rest_step:
  assumes k: "k \<le> length s"
  shows "fq_rest m (drop k s) \<longleftrightarrow>
           (\<exists>e \<in> set (label_ends s k). fq_rest (m - 1) (drop e s)) \<or> (m = 0 \<and> tld (drop k s))"
proof
  assume "fq_rest m (drop k s)"
  then obtain ls t where f: "m \<le> length ls" "\<forall>l \<in> set ls. label l" "tld t" "drop k s = dotted ls t"
    unfolding fq_rest_def by blast
  show "(\<exists>e \<in> set (label_ends s k). fq_rest (m - 1) (drop e s)) \<or> (m = 0 \<and> tld (drop k s))"
  proof (cases ls)
    case Nil
    with f show ?thesis by (simp add: dotted_Nil)
  next
    case (Cons l ls')
    let ?e = "Suc (k + length l)"
    from f(4) Cons have d: "drop k s = l @ 46 # dotted ls' t" by (simp add: dotted_Cons)
    from arg_cong [OF d, of length] have e: "?e \<le> length s" by simp
    have "drop k (take ?e s) = take (Suc (length l)) (drop k s)" by (simp add: drop_take)
    also have "\<dots> = l @ [46]" by (simp add: d)
    finally have sl: "drop k (take ?e s) = l @ [46]" .
    have "drop ?e s = drop (Suc (length l)) (drop k s)" by (simp add: add.commute)
    also have "\<dots> = dotted ls' t" by (simp add: d)
    finally have rest: "drop ?e s = dotted ls' t" .
    have "label l" using f(2) Cons by simp
    with e sl have "?e \<in> set (label_ends s k)" unfolding label_ends_mem [OF k] by blast
    moreover have "fq_rest (m - 1) (drop ?e s)"
      unfolding fq_rest_def rest using f(1,2,3) Cons by (intro exI [of _ ls'] exI [of _ t]) auto
    ultimately show ?thesis by blast
  qed
next
  assume "(\<exists>e \<in> set (label_ends s k). fq_rest (m - 1) (drop e s)) \<or> (m = 0 \<and> tld (drop k s))"
  then show "fq_rest m (drop k s)"
  proof
    assume "\<exists>e \<in> set (label_ends s k). fq_rest (m - 1) (drop e s)"
    then obtain e where e0: "e \<in> set (label_ends s k)" "fq_rest (m - 1) (drop e s)" by blast
    from e0(1) obtain l where e: "label l" "e = Suc (k + length l)" "e \<le> length s"
      "drop k (take e s) = l @ [46]"
      unfolding label_ends_mem [OF k] by blast
    from e0(2) obtain ls t where f: "m - 1 \<le> length ls" "\<forall>l \<in> set ls. label l" "tld t"
      "drop e s = dotted ls t"
      unfolding fq_rest_def by blast
    have "drop k s = drop k (take e s) @ drop e s" using e(2) by (intro drop_slice) simp
    then have "drop k s = dotted (l # ls) t" by (simp add: e(4) f(4) dotted_Cons)
    moreover have "m \<le> length (l # ls)" using f(1) by simp
    moreover have "\<forall>x \<in> set (l # ls). label x" using e(1) f(2) by simp
    ultimately show ?thesis unfolding fq_rest_def using f(3) by blast
  next
    assume "m = 0 \<and> tld (drop k s)"
    then show ?thesis unfolding fq_rest_def
      by (intro exI [of _ "[]"] exI [of _ "drop k s"]) (simp add: dotted_Nil)
  qed
qed

lemma ok_labels:
  assumes nl: "10 \<notin> set s"
  shows "k \<le> length s \<Longrightarrow>
           matches db (Cat (Rep m None label_re) tld_re) (at s g k) \<noteq> [] \<longleftrightarrow> fq_rest m (drop k s)"
proof (induction "length s - k" arbitrary: k m g rule: less_induct)
  case less
  note k = \<open>k \<le> length s\<close>
  let ?g = "\<lambda>e. (2, drop k (take e s)) # g"
  have inner: "(\<exists>y \<in> set (matches db (Rep (m - 1) None label_re) (at s (?g e) e)).
                  matches db tld_re y \<noteq> []) \<longleftrightarrow> fq_rest (m - 1) (drop e s)"
    if "e \<in> set (label_ends s k)" for e
  proof -
    from label_ends_range [OF k that] have e: "k < e" "e \<le> length s" by simp_all
    then have "length s - e < length s - k" by arith
    from less.hyps [OF this e(2), of "m - 1" "?g e"] show ?thesis by (simp only: ok_Cat)
  qed
  have dec: "remaining (at s (?g e) e) < remaining (at s g k)" if "e \<in> set (label_ends s k)" for e
    using label_ends_range [OF k that] k by (simp add: remaining_at) arith
  have S: "{x \<in> set (matches db label_re (at s g k)). remaining x < remaining (at s g k)}
           = (\<lambda>e. at s (?g e) e) ` set (label_ends s k)"
    unfolding matches_label [OF k] using dec by auto
  have "set (matches db (Rep m None label_re) (at s g k))
        = (\<Union>x \<in> (\<lambda>e. at s (?g e) e) ` set (label_ends s k).
             set (matches db (Rep (m - 1) None label_re) x))
          \<union> (if m = 0 then {at s g k} else {})"
    by (subst set_Rep_None) (simp only: S)
  then have mem: "y \<in> set (matches db (Rep m None label_re) (at s g k)) \<longleftrightarrow>
      (\<exists>e \<in> set (label_ends s k). y \<in> set (matches db (Rep (m - 1) None label_re) (at s (?g e) e)))
      \<or> (m = 0 \<and> y = at s g k)" for y
    by (auto split: if_splits)
  have "matches db (Cat (Rep m None label_re) tld_re) (at s g k) \<noteq> [] \<longleftrightarrow>
          (\<exists>e \<in> set (label_ends s k).
              \<exists>y \<in> set (matches db (Rep (m - 1) None label_re) (at s (?g e) e)).
                 matches db tld_re y \<noteq> [])
          \<or> (m = 0 \<and> matches db tld_re (at s g k) \<noteq> [])"
    unfolding ok_Cat [of db "Rep m None label_re" tld_re] using mem by blast
  also have "\<dots> \<longleftrightarrow> (\<exists>e \<in> set (label_ends s k). fq_rest (m - 1) (drop e s))
                     \<or> (m = 0 \<and> tld (drop k s))"
    using inner ok_tld [OF nl k] by auto
  also have "\<dots> \<longleftrightarrow> fq_rest m (drop k s)" by (rule fq_rest_step [OF k, symmetric])
  finally show ?case .
qed

lemma is_fqdn_rest: "is_fqdn h \<longleftrightarrow> 4 \<le> length h \<and> length h \<le> 253 \<and> fq_rest (Suc 0) h"
proof -
  have "(ls \<noteq> []) = (Suc 0 \<le> length ls)" for ls :: "unicode list" by (cases ls) simp_all
  then show ?thesis by (simp add: is_fqdn_def fq_rest_def)
qed

theorem fqdn_match:
  assumes nl: "10 \<notin> set h"
  shows "re_match db fqdn_re h \<noteq> None \<longleftrightarrow> is_fqdn h"
proof -
  let ?G = "Grp (Suc 0) (Cat Bol (Cat (Rep (Suc 0) None label_re) tld_re))"
  have G: "matches db ?G (at h g 0) \<noteq> [] \<longleftrightarrow> fq_rest (Suc 0) h" for g
    using ok_labels [OF nl, of 0 db "Suc 0" g]
    by (simp add: matches_Grp ok_Cat [of db Bol] matches_Bol_0)
  have "matches db fqdn_re (at h [] 0) \<noteq> [] \<longleftrightarrow>
          matches db look_re (at h [] 0) \<noteq> [] \<and> fq_rest (Suc 0) h"
  proof (cases "matches db look_re (at h [] 0)")
    case Nil
    then show ?thesis by (simp add: fqdn_re_parts matches_Cat matches.simps(8))
  next
    case (Cons x xs)
    obtain b a g where x: "x = (b, a, g)" by (cases x)
    have "matches db (Ahead look_re) (at h [] 0) = [at h g 0]"
      by (simp add: matches.simps(8) Cons x) (simp add: at_def)
    then show ?thesis using G [of g] Cons
      by (simp add: fqdn_re_parts matches_Cat [of db "Ahead look_re"])
  qed
  then have "matches db fqdn_re ([], h, []) \<noteq> [] \<longleftrightarrow> is_fqdn h"
    using ok_look [OF nl, of db "[]"] by (auto simp: is_fqdn_rest at_0)
  then show ?thesis by (simp add: re_match_first first_None)
qed

subsection \<open>The classifier\<close>

lemmas engine_eval =
  re_match_def git_re_def fqdn_re_def uni_def ord_def step_def remaining_def
  Star_def Plus_def Opt_def matches.simps

lemma prefix_check:
  "(list_ex (\<lambda>scheme. startswith uri (scheme @ uni ''://'')) gitschemes
      \<or> startswith uri (uni ''http:'') \<or> startswith uri (uni ''https:''))
   \<longleftrightarrow> list_ex (startswith uri) scheme_prefixes"
  by (simp add: gitschemes_def scheme_prefixes_def uni_def disj_ac)

lemma isgitsshuri_unfold:
  "isgitsshuri db uri \<longleftrightarrow>
     \<not> list_ex (startswith uri) scheme_prefixes
     \<and> (\<exists>whole groups h path. re_match db git_re uri = Some (whole, groups)
           \<and> map_of groups 1 = Some h \<and> map_of groups 2 = Some path
           \<and> (endswith path (uni ''.git'') \<or> re_match db fqdn_re h \<noteq> None))"
  unfolding prefix_check [symmetric] isgitsshuri_def
  by (auto split: option.splits)

lemma git_groups_host: "git_groups db uri h path \<Longrightarrow> host_token db h"
  unfolding git_groups_def git_split_def by blast

lemmas classifier_eval =
  isgitsshuri_def gitschemes_def startswith_def endswith_def engine_eval

text \<open>The examples of the docstring, whatever the character tables.\<close>

lemma isgitsshuri_doctests:
  "\<not> isgitsshuri db (uni ''http://fqdn.com/hg'')"
  "\<not> isgitsshuri db (uni ''http://fqdn.com/test.git'')"
  "isgitsshuri db (uni ''git@github.com:user/repo.git'')"
  "isgitsshuri db (uni ''github-123.com:user/repo.git'')"
  "isgitsshuri db (uni ''git@127.0.0.1:repo.git'')"
  "isgitsshuri db (uni ''git@[2001:db8::1]:repository.git'')"
  by (simp_all add: classifier_eval)

text \<open>The examples of the specification.\<close>

lemma isgitsshuri_examples:
  "\<not> isgitsshuri db (uni ''http://host/repo'')"
  "\<not> isgitsshuri db (uni ''http://host/repo.git'')"
  "isgitsshuri db (uni ''user@host:path/repo.git'')"
  "\<not> isgitsshuri db (uni ''host-only-no-colon'')"
  "isgitsshuri db (uni ''short.com:repo.git'')"
  "isgitsshuri db (uni ''user@host.example.com:path/to/repo.git'')"
  "isgitsshuri db (uni ''short.io:repo.git'')"
  "\<not> isgitsshuri db (uni ''not_a_host_at_all'')"
  by (simp_all add: classifier_eval)

lemma is_fqdn_hd:
  assumes "is_fqdn h"
  shows "h \<noteq> [] \<and> label_char (hd h)"
proof -
  from assms obtain ls t where f: "ls \<noteq> []" "\<forall>l \<in> set ls. label l" "h = dotted ls t"
    unfolding is_fqdn_def by blast
  then obtain l ls' where ls: "ls = l # ls'" by (cases ls) simp_all
  with f(2) have l: "l \<noteq> []" "\<forall>c \<in> set l. label_char c" by (auto simp: label_def)
  from f(3) ls have "h = l @ 46 # dotted ls' t" by (simp add: dotted_Cons)
  with l have "h \<noteq> []" "hd h = hd l" by simp_all
  with l show ?thesis by simp
qed

lemma bracket_not_fqdn:
  assumes "host_token db h" "startswith h (uni ''['')"
  shows "re_match db fqdn_re h = None"
proof (rule ccontr)
  assume "re_match db fqdn_re h \<noteq> None"
  then have "is_fqdn h" using fqdn_match [OF host_token_no_newline [OF assms(1)]] by simp
  from is_fqdn_hd [OF this] have "h \<noteq> []" "label_char (hd h)" by simp_all
  moreover from assms(2) \<open>h \<noteq> []\<close> have "hd h = 91"
    by (cases h) (simp_all add: startswith_def uni_def ord_def)
  ultimately show False by (simp add: label_char_def)
qed

text \<open>
  \<^bold>\<open>C2.\<close> \<open>isgitsshuri\<close> returns true exactly when the address starts with none of
  \<open>git://\<close>, \<open>git+ssh://\<close>, \<open>git+http://\<close>, \<open>git+https://\<close>, \<open>http:\<close>, \<open>https:\<close>, the
  pattern matches it, and the path remainder ends with \<open>.git\<close> or the host token is a
  fully qualified domain name. The pattern and the name test are stated here without the
  matcher: the first line of the address is an optional user prefix ending in \<open>@\<close>, a host
  token, a colon and the path remainder, the host token and the path remainder being
  those of the backtracking match (\<open>git_groups\<close>: the longest user prefix, then the longest
  host token); a domain name is \<open>is_fqdn\<close>.
\<close>

theorem classifier_characterisation:
  "isgitsshuri db uri \<longleftrightarrow>
     \<not> list_ex (startswith uri) scheme_prefixes
     \<and> (\<exists>h path. git_groups db uri h path \<and> (endswith path (uni ''.git'') \<or> is_fqdn h))"
proof -
  have "(\<exists>whole groups h path. re_match db git_re uri = Some (whole, groups)
           \<and> map_of groups 1 = Some h \<and> map_of groups 2 = Some path
           \<and> (endswith path (uni ''.git'') \<or> re_match db fqdn_re h \<noteq> None))
        \<longleftrightarrow> (\<exists>h path. git_groups db uri h path \<and> (endswith path (uni ''.git'') \<or> is_fqdn h))"
    (is "?L \<longleftrightarrow> ?R")
  proof
    assume ?L
    then obtain whole groups h path where m: "re_match db git_re uri = Some (whole, groups)"
      "map_of groups 1 = Some h" "map_of groups 2 = Some path"
      "endswith path (uni ''.git'') \<or> re_match db fqdn_re h \<noteq> None" by blast
    from m(1) obtain h' path' where g: "git_groups db uri h' path'"
      "groups = [(2, path'), (Suc 0, h')]" unfolding git_match_iff by blast
    with m(2,3) have "h' = h" "path' = path" by simp_all
    with g m(4) fqdn_match [OF host_token_no_newline [OF git_groups_host [OF g(1)]], of db]
    show ?R by blast
  next
    assume ?R
    then obtain h path where g: "git_groups db uri h path"
      "endswith path (uni ''.git'') \<or> is_fqdn h" by blast
    then have "re_match db git_re uri = Some (line_of uri, [(2, path), (Suc 0, h)])"
      unfolding git_match_iff by blast
    moreover have "map_of [(2, path), (Suc 0, h)] 1 = Some h"
      "map_of [(2, path), (Suc 0, h)] 2 = Some path" by simp_all
    moreover have "endswith path (uni ''.git'') \<or> re_match db fqdn_re h \<noteq> None"
      using g fqdn_match [OF host_token_no_newline [OF git_groups_host [OF g(1)]], of db] by blast
    ultimately show ?L by blast
  qed
  then show ?thesis unfolding isgitsshuri_unfold by simp
qed

theorem classifier_characterisation_witness:
  "\<not> list_ex (startswith (uni ''short.io:repo'')) scheme_prefixes
   \<and> (\<exists>h path. git_groups nodb (uni ''short.io:repo'') h path
         \<and> (endswith path (uni ''.git'') \<or> is_fqdn h))"
proof -
  have "isgitsshuri nodb (uni ''short.io:repo'')"
    by (simp add: isgitsshuri_def gitschemes_def startswith_def endswith_def engine_eval)
  then show ?thesis
    using classifier_characterisation [of nodb "uni ''short.io:repo''"] by blast
qed

text \<open>
  \<^bold>\<open>C3.\<close> \<open>isgitsshuri\<close> accepts \<open>git@[2001:db8::1]:repository.git\<close> and rejects
  \<open>[2001:db8::1]:repo\<close>; and whenever the host token that the pattern captures starts
  with an opening bracket, the domain-name pattern does not match it, so that an address
  whose path remainder does not end with \<open>.git\<close> is rejected.
\<close>

theorem bracketed_host_only_with_git_suffix:
  "isgitsshuri db (uni ''git@[2001:db8::1]:repository.git'')
   \<and> \<not> isgitsshuri db (uni ''[2001:db8::1]:repo'')
   \<and> (\<forall>uri whole groups h path.
         re_match db git_re uri = Some (whole, groups)
         \<and> map_of groups 1 = Some h \<and> map_of groups 2 = Some path
         \<and> startswith h (uni ''['') \<and> \<not> endswith path (uni ''.git'')
         \<longrightarrow> re_match db fqdn_re h = None \<and> \<not> isgitsshuri db uri)"
proof (intro conjI allI impI)
  show "isgitsshuri db (uni ''git@[2001:db8::1]:repository.git'')"
    by (simp add: isgitsshuri_def gitschemes_def startswith_def endswith_def engine_eval)
  show "\<not> isgitsshuri db (uni ''[2001:db8::1]:repo'')"
    by (simp add: isgitsshuri_def gitschemes_def startswith_def endswith_def engine_eval)
next
  fix uri whole groups h path
  assume a: "re_match db git_re uri = Some (whole, groups)
         \<and> map_of groups 1 = Some h \<and> map_of groups 2 = Some path
         \<and> startswith h (uni ''['') \<and> \<not> endswith path (uni ''.git'')"
  then obtain h' path' where g: "git_groups db uri h' path'"
    "groups = [(2, path'), (Suc 0, h')]" unfolding git_match_iff by blast
  with a have "h' = h" by simp
  with g a have n: "re_match db fqdn_re h = None"
    using bracket_not_fqdn [OF git_groups_host [OF g(1)]] by simp
  then show "re_match db fqdn_re h = None" .
  from a n show "\<not> isgitsshuri db uri" unfolding isgitsshuri_unfold by auto
qed

theorem bracketed_host_only_with_git_suffix_witness:
  "re_match nodb git_re (uni ''[2001:db8::1]:repo'')
     = Some (uni ''[2001:db8::1]:repo'', [(2, uni ''repo''), (1, uni ''[2001:db8::1]'')])
   \<and> re_match nodb fqdn_re (uni ''[2001:db8::1]'') = None
   \<and> \<not> isgitsshuri nodb (uni ''[2001:db8::1]:repo'')"
proof -
  let ?uri = "uni ''[2001:db8::1]:repo''"
  let ?groups = "[(2::nat, uni ''repo''), (1, uni ''[2001:db8::1]'')]"
  have m: "re_match nodb git_re ?uri = Some (?uri, ?groups)"
    by (simp add: engine_eval)
  have g: "map_of ?groups 1 = Some (uni ''[2001:db8::1]'')" "map_of ?groups 2 = Some (uni ''repo'')"
    by simp_all
  have s: "startswith (uni ''[2001:db8::1]'') (uni ''['')" "\<not> endswith (uni ''repo'') (uni ''.git'')"
    by (simp_all add: startswith_def endswith_def uni_def ord_def)
  from bracketed_host_only_with_git_suffix [of nodb] m g s show ?thesis by blast
qed

text \<open>
  \<^bold>\<open>C8.\<close> The host token is not the part of the address before its last colon, and host
  token, colon and path remainder do not make up the matched portion: for
  \<open>git@github.com:user/repo.git\<close>, whatever the character tables, the match is the whole
  address, the host token is \<open>github.com\<close> and the path remainder \<open>user/repo.git\<close>, while
  the part before the last colon is \<open>git@github.com\<close>.
\<close>

theorem host_token_is_not_the_part_before_the_last_colon:
  "\<forall>db. \<not> list_ex (startswith (uni ''git@github.com:user/repo.git'')) scheme_prefixes
     \<and> re_match db git_re (uni ''git@github.com:user/repo.git'')
         = Some (uni ''git@github.com:user/repo.git'',
                 [(2, uni ''user/repo.git''), (1, uni ''github.com'')])
     \<and> before_final_colon (uni ''git@github.com:user/repo.git'') = uni ''git@github.com''
     \<and> uni ''github.com'' \<noteq> before_final_colon (uni ''git@github.com:user/repo.git'')
     \<and> uni ''github.com'' @ uni '':'' @ uni ''user/repo.git''
         \<noteq> uni ''git@github.com:user/repo.git''"
proof (intro allI conjI)
  fix db
  show "re_match db git_re (uni ''git@github.com:user/repo.git'')
         = Some (uni ''git@github.com:user/repo.git'',
                 [(2, uni ''user/repo.git''), (1, uni ''github.com'')])"
    by (simp add: engine_eval)
qed (simp_all add: scheme_prefixes_def startswith_def before_final_colon_def uni_def ord_def)

text \<open>
  \<^bold>\<open>C8\<close>, amended. When the pattern matches, the matched portion is the first line of the
  address, and it is a user prefix (empty, or two characters or more ending in \<open>@\<close>),
  then the host token, a colon and the path remainder. Of all the ways to cut the first
  line like this, the match is the one with the longest user prefix and, after it, the
  longest host token.
\<close>

theorem match_is_prefix_host_colon_path:
  assumes "re_match db git_re uri = Some (whole, groups)"
  shows "\<exists>pre h path.
           groups = [(2, path), (1, h)] \<and> whole = line_of uri
           \<and> whole = pre @ h @ uni '':'' @ path \<and> user_prefix pre \<and> host_token db h
           \<and> (\<forall>pre' h' path'. git_split db uri pre' h' path' \<longrightarrow>
                 length pre' < length pre
                 \<or> (length pre' = length pre \<and> length h' \<le> length h))"
proof -
  from assms obtain h path where g: "git_groups db uri h path" "whole = line_of uri"
    "groups = [(2, path), (Suc 0, h)]" unfolding git_match_iff by blast
  from g(1) obtain pre where p: "git_split db uri pre h path"
    "\<forall>pre' h' path'. git_split db uri pre' h' path' \<longrightarrow>
        length pre' < length pre \<or> (length pre' = length pre \<and> length h' \<le> length h)"
    unfolding git_groups_def by blast
  from p(1) have "line_of uri = pre @ h @ uni '':'' @ path" "user_prefix pre" "host_token db h"
    by (simp_all add: git_split_def uni_def ord_def)
  with g p(2) show ?thesis by (intro exI [of _ pre] exI [of _ h] exI [of _ path]) simp
qed

theorem match_is_prefix_host_colon_path_witness:
  "\<exists>pre h path.
     [(2::nat, uni ''user/repo.git''), (1, uni ''github.com'')] = [(2, path), (1, h)]
     \<and> uni ''git@github.com:user/repo.git'' = line_of (uni ''git@github.com:user/repo.git'')
     \<and> uni ''git@github.com:user/repo.git'' = pre @ h @ uni '':'' @ path
     \<and> user_prefix pre \<and> host_token nodb h
     \<and> (\<forall>pre' h' path'. git_split nodb (uni ''git@github.com:user/repo.git'') pre' h' path' \<longrightarrow>
           length pre' < length pre
           \<or> (length pre' = length pre \<and> length h' \<le> length h))"
proof -
  have "re_match nodb git_re (uni ''git@github.com:user/repo.git'')
         = Some (uni ''git@github.com:user/repo.git'',
                 [(2, uni ''user/repo.git''), (1, uni ''github.com'')])"
    by (simp add: engine_eval)
  then show ?thesis by (rule match_is_prefix_host_colon_path)
qed

end
